theory Spec2Isabelle
  imports Complex_Main "HOL-Library.Multiset"
begin

section \<open>Zero-trust PMU pipeline: signal generation and feature extraction\<close>

text \<open>
  A shallow embedding of \<^verbatim>\<open>dsp/signal_simulator.py\<close> and
  \<^verbatim>\<open>dsp/feature_extractor.py\<close>.

  Conventions of the embedding.
  \<^item> A NumPy array of \<^verbatim>\<open>float64\<close> is a \<open>real list\<close>; Python floats are
    idealised as reals, so every product, quotient, square root and sine is the exact one.
    The one exception is \<^verbatim>\<open>generate_batch\<close>, whose integer counts depend on how the
    machine rounds a product: there the product is rounded to binary64.
  \<^item> A Python \<^verbatim>\<open>int\<close> is an \<open>int\<close>.
  \<^item> An exception is a value of \<open>py_error\<close>; a function that can raise returns
    \<open>py_error + 'a\<close> with \<open>Inl\<close> for the exception.
  \<^item> The global state of \<^verbatim>\<open>np.random\<close> is an explicit value of type \<open>rng\<close>
    that every generator takes and returns.
  \<^item> The SciPy routines \<^verbatim>\<open>butter\<close> and \<^verbatim>\<open>filtfilt\<close> are parameters of the
    functions that call them.
\<close>

subsection \<open>Exceptions\<close>

datatype py_error = ValueError | LinAlgError | IndexError | ZeroDivisionError | OtherError

subsection \<open>Python's rounding\<close>

text \<open>
  \<^verbatim>\<open>round(x)\<close> rounds to the nearest integer and a tie to the even neighbour;
  \<^verbatim>\<open>round(x, 4)\<close> does the same at the fourth decimal digit.
\<close>

definition py_round :: "real \<Rightarrow> int" where
  "py_round x =
     (let f = \<lfloor>x\<rfloor>; d = x - of_int f
      in if d < 1 / 2 then f
         else if 1 / 2 < d then f + 1
         else if even f then f else f + 1)"

definition round_ndigits :: "real \<Rightarrow> nat \<Rightarrow> real" where
  "round_ndigits x k = of_int (py_round (x * 10 ^ k)) / 10 ^ k"

subsection \<open>Binary64 arithmetic\<close>

text \<open>
  \<open>fl64 x\<close> is the binary64 number nearest to \<open>x\<close>: \<open>x\<close> is rounded to 53 significant
  bits, a tie to the even significand. The unit in the last place of \<open>x\<close> is
  \<open>2 ^ (\<lfloor>log\<^sub>2 \<bar>x\<bar>\<rfloor> - 52)\<close>. The exponent range is not bounded, which is exact for
  binary64 on the normal range, that is for \<open>2 ^ - 1022 \<le> \<bar>x\<bar> < 2 ^ 1024\<close>.

  \<^verbatim>\<open>c * n\<close> for a float literal \<open>c\<close> and an \<^verbatim>\<open>int\<close> \<open>n\<close> converts the literal and
  the integer to binary64 and rounds their product. (Python converts no integer from
  \<open>2 ^ 1024\<close> on; the model rounds those as well.)
\<close>

definition fl64 :: "real \<Rightarrow> real" where
  "fl64 x =
     (if x = 0 then 0
      else let u = 2 powr (of_int \<lfloor>log 2 \<bar>x\<bar>\<rfloor> - 52)
           in of_int (py_round (x / u)) * u)"

definition float_times_int :: "real \<Rightarrow> int \<Rightarrow> real" where
  "float_times_int c n = fl64 (fl64 c * fl64 (of_int n))"

subsection \<open>The random source\<close>

text \<open>
  The state of \<^verbatim>\<open>np.random\<close> is the supply of variates still to be handed out:
  standard normal variates, variates of the unit interval (NumPy's contract is
  \<open>0 \<le> u < 1\<close>) and raw non-negative integers. A draw reads the head of a supply
  and returns the state with that supply advanced.
\<close>

record rng =
  normals :: "nat \<Rightarrow> real"
  uniforms :: "nat \<Rightarrow> real"
  integers :: "nat \<Rightarrow> nat"

definition random_normal :: "real \<Rightarrow> real \<Rightarrow> nat \<Rightarrow> rng \<Rightarrow> real list \<times> rng" where
  "random_normal loc scale sz g =
     (map (\<lambda>k. loc + scale * normals g k) [0..<sz],
      g\<lparr>normals := (\<lambda>k. normals g (k + sz))\<rparr>)"

definition random_uniform :: "real \<Rightarrow> real \<Rightarrow> rng \<Rightarrow> real \<times> rng" where
  "random_uniform low high g =
     (low + (high - low) * uniforms g 0,
      g\<lparr>uniforms := (\<lambda>k. uniforms g (Suc k))\<rparr>)"

definition random_randint :: "nat \<Rightarrow> nat \<Rightarrow> rng \<Rightarrow> nat \<times> rng" where
  "random_randint low high g =
     (low + integers g 0 mod (high - low),
      g\<lparr>integers := (\<lambda>k. integers g (Suc k))\<rparr>)"

text \<open>
  \<^verbatim>\<open>np.random.shuffle\<close> permutes a list in place: for \<open>i\<close> from the last index down
  to 1 it draws \<open>j\<close> from \<open>0..i\<close> and exchanges the entries \<open>i\<close> and \<open>j\<close>.
\<close>

fun shuffle_from :: "nat \<Rightarrow> 'a list \<Rightarrow> rng \<Rightarrow> 'a list \<times> rng" where
  "shuffle_from 0 xs g = (xs, g)"
| "shuffle_from (Suc i) xs g =
     (let (j, g') = random_randint 0 (Suc (Suc i)) g
      in shuffle_from i (xs[Suc i := xs ! j, j := xs ! Suc i]) g')"

definition shuffle :: "'a list \<Rightarrow> rng \<Rightarrow> 'a list \<times> rng" where
  "shuffle xs g = shuffle_from (length xs - 1) xs g"

subsection \<open>Readings and the signal simulator\<close>

record reading =
  voltage :: "real list"
  frequency :: "real list"
  anomaly_type :: string
  severity :: string

definition NOMINAL_VOLTAGE :: real where
  "NOMINAL_VOLTAGE = 1.0"

definition NOMINAL_FREQUENCY :: real where
  "NOMINAL_FREQUENCY = 50.0"

definition SAMPLING_RATE :: nat where
  "SAMPLING_RATE = 50"

definition SAMPLES_PER_READING :: nat where
  "SAMPLES_PER_READING = 50"

text \<open>\<^verbatim>\<open>np.arange(SAMPLES_PER_READING) / SAMPLING_RATE\<close>\<close>

definition sample_times :: "real list" where
  "sample_times = map (\<lambda>k. real k / real SAMPLING_RATE) [0..<SAMPLES_PER_READING]"

text \<open>\<^verbatim>\<open>np.sin(2 * np.pi * NOMINAL_FREQUENCY * t + phase_offset)\<close> with
  \<^verbatim>\<open>phase_offset = np.pi / 4\<close>\<close>

definition base_sine :: "real list" where
  "base_sine = map (\<lambda>t. sin (2 * pi * NOMINAL_FREQUENCY * t + pi / 4)) sample_times"

text \<open>\<^verbatim>\<open>np.linspace(start, stop, num)\<close>: \<open>num\<close> evenly spaced samples, both ends included.\<close>

definition linspace :: "real \<Rightarrow> real \<Rightarrow> nat \<Rightarrow> real list" where
  "linspace start stop num =
     map (\<lambda>k. start + real k * ((stop - start) / real (num - 1))) [0..<num]"

definition generate_normal_signal :: "rng \<Rightarrow> reading \<times> rng" where
  "generate_normal_signal g =
     (let volt = map (\<lambda>s. NOMINAL_VOLTAGE * s) base_sine;
          (noise, g1) = random_normal 0 0.01 SAMPLES_PER_READING g;
          freq = map (\<lambda>z. NOMINAL_FREQUENCY + z) noise
      in (\<lparr>voltage = volt, frequency = freq,
           anomaly_type = ''none'', severity = ''none''\<rparr>, g1))"

definition generate_point_anomaly :: "rng \<Rightarrow> reading \<times> rng" where
  "generate_point_anomaly g =
     (let volt = map (\<lambda>s. NOMINAL_VOLTAGE * s) base_sine;
          (noise, g1) = random_normal 0 0.01 SAMPLES_PER_READING g;
          freq = map (\<lambda>z. NOMINAL_FREQUENCY + z) noise;
          (spike_value, g2) = random_uniform 1.3 1.5 g1;
          (spike_index, g3) = random_randint 0 SAMPLES_PER_READING g2;
          volt' = volt[spike_index := spike_value];
          sev = (if 1.4 < spike_value then ''high'' else ''medium'')
      in (\<lparr>voltage = volt', frequency = freq,
           anomaly_type = ''point'', severity = sev\<rparr>, g3))"

definition generate_trend_anomaly :: "rng \<Rightarrow> reading \<times> rng" where
  "generate_trend_anomaly g =
     (let envelope = linspace NOMINAL_VOLTAGE 1.2 SAMPLES_PER_READING;
          volt = map2 (\<lambda>e s. e * s) envelope base_sine;
          (noise, g1) = random_normal 0 0.01 SAMPLES_PER_READING g;
          freq = map (\<lambda>z. NOMINAL_FREQUENCY + z) noise
      in (\<lparr>voltage = volt, frequency = freq,
           anomaly_type = ''trend'', severity = ''medium''\<rparr>, g1))"

text \<open>
  \<^verbatim>\<open>for _ in range(k): readings.append(gen())\<close>. A negative \<open>k\<close> gives an empty
  range, so the number of rounds is \<open>nat k\<close>.
\<close>

fun append_generated ::
  "(rng \<Rightarrow> reading \<times> rng) \<Rightarrow> nat \<Rightarrow> reading list \<Rightarrow> rng \<Rightarrow> reading list \<times> rng" where
  "append_generated gen 0 readings g = (readings, g)"
| "append_generated gen (Suc k) readings g =
     (let (r, g') = gen g in append_generated gen k (readings @ [r]) g')"

definition generate_batch :: "int \<Rightarrow> rng \<Rightarrow> reading list \<times> rng" where
  "generate_batch n g =
     (let n_normal = py_round (float_times_int 0.40 n);
          n_point = py_round (float_times_int 0.35 n);
          n_trend = n - n_normal - n_point;
          (rs1, g1) = append_generated generate_normal_signal (nat n_normal) [] g;
          (rs2, g2) = append_generated generate_point_anomaly (nat n_point) rs1 g1;
          (rs3, g3) = append_generated generate_trend_anomaly (nat n_trend) rs2 g2
      in shuffle rs3 g3)"

text \<open>The number of readings of one anomaly type in a batch.\<close>

definition count_type :: "string \<Rightarrow> reading list \<Rightarrow> nat" where
  "count_type ty rs = length (filter (\<lambda>r. anomaly_type r = ty) rs)"

text \<open>A sample state of the random source, for running the generators on concrete input.\<close>

definition rng0 :: rng where
  "rng0 = \<lparr>normals = (\<lambda>k. 0), uniforms = (\<lambda>k. 3 / 4), integers = (\<lambda>k. 7 * k + 3)\<rparr>"

subsection \<open>NumPy and SciPy routines used by the feature extractor\<close>

text \<open>\<^verbatim>\<open>np.mean\<close> of a non-empty array.\<close>

definition mean :: "real list \<Rightarrow> real" where
  "mean xs = sum_list xs / real (length xs)"

text \<open>
  \<^verbatim>\<open>np.max\<close> raises \<^verbatim>\<open>ValueError\<close> on an array of size zero, since the
  maximum has no identity.
\<close>

definition np_max :: "real list \<Rightarrow> py_error + real" where
  "np_max xs = (case xs of [] \<Rightarrow> Inl ValueError | x # rest \<Rightarrow> Inr (fold max rest x))"

text \<open>
  Reading \<^verbatim>\<open>a[i]\<close> for an integer \<open>i\<close>: a negative index counts from the end,
  and an index outside the array raises \<^verbatim>\<open>IndexError\<close>.
\<close>

definition array_get :: "'a list \<Rightarrow> int \<Rightarrow> py_error + 'a" where
  "array_get a i =
     (let len = int (length a); pos = (if i < 0 then i + len else i)
      in if pos < 0 \<or> len \<le> pos then Inl IndexError else Inr (a ! nat pos))"

text \<open>
  \<^verbatim>\<open>int(np.ceil(np.log2(n)))\<close> for \<open>n \<ge> 1\<close>, computed by halving; the lemma
  \<open>ceil_log2_eq\<close> below relates it to the logarithm.
\<close>

fun ceil_log2 :: "nat \<Rightarrow> nat" where
  "ceil_log2 n = (if n \<le> 1 then 0 else Suc (ceil_log2 ((n + 1) div 2)))"

declare ceil_log2.simps [simp del]

text \<open>
  \<^verbatim>\<open>scipy.fft.fft(x, n)\<close>: the input is cut or zero-padded to length \<open>n\<close> and
  the result is the discrete Fourier transform
  \<open>y[k] = \<Sum>m<n. x[m] * exp (- 2 \<pi> \<i> k m / n)\<close>.
\<close>

definition fft :: "real list \<Rightarrow> nat \<Rightarrow> complex list" where
  "fft x n =
     (let padded = take n x @ replicate (n - length x) 0
      in map (\<lambda>k. \<Sum>m\<leftarrow>[0..<n].
                 complex_of_real (padded ! m) * cis (- (2 * pi * real k * real m / real n)))
           [0..<n])"

text \<open>
  The SciPy filter routines are not part of the repository. \<^verbatim>\<open>butter(order, [low, high],
  btype="band")\<close> returns the coefficient arrays \<open>(b, a)\<close> or raises;
  \<^verbatim>\<open>filtfilt(b, a, signal)\<close> returns the filtered array or raises.
\<close>

type_synonym butter_fn = "nat \<Rightarrow> real \<Rightarrow> real \<Rightarrow> py_error + real list \<times> real list"

type_synonym filtfilt_fn = "real list \<Rightarrow> real list \<Rightarrow> real list \<Rightarrow> py_error + real list"

subsection \<open>The feature extractor\<close>

definition bandpass_filter ::
  "butter_fn \<Rightarrow> filtfilt_fn \<Rightarrow> real list \<Rightarrow> real \<Rightarrow> real \<Rightarrow> real \<Rightarrow> nat \<Rightarrow> py_error + real list"
  where
  "bandpass_filter butter filtfilt signal lowcut highcut fs ord =
     (let nyq = 0.5 * fs
      in if nyq = 0 then Inl ZeroDivisionError
         else
           let low = lowcut / nyq; high = highcut / nyq
           in if 1 \<le> low \<or> 1 \<le> high \<or> low \<le> 0 \<or> high \<le> 0 then Inr signal
              else
                (case butter ord low high of
                   Inl e \<Rightarrow> if e = ValueError \<or> e = LinAlgError then Inr signal else Inl e
                 | Inr (b, a) \<Rightarrow>
                     (case filtfilt b a signal of
                        Inl e \<Rightarrow> if e = ValueError \<or> e = LinAlgError then Inr signal else Inl e
                      | Inr filtered \<Rightarrow> Inr filtered)))"

definition compute_rms :: "real list \<Rightarrow> real" where
  "compute_rms signal =
     (if length signal = 0 then 0.0
      else let rms = sqrt (mean (map (\<lambda>x. x\<^sup>2) signal)) in round_ndigits rms 4)"

text \<open>
  The loop \<^verbatim>\<open>for h in range(2, 6)\<close> of \<^verbatim>\<open>compute_thd\<close>: the accumulator is
  \<^verbatim>\<open>harmonic_amps_sq\<close>. The guard \<open>bin_h \<le> half\<close> keeps the index inside the
  spectrum, which has \<open>half + 1\<close> entries.
\<close>

definition add_harmonic :: "real list \<Rightarrow> int \<Rightarrow> nat \<Rightarrow> nat \<Rightarrow> real \<Rightarrow> real" where
  "add_harmonic spectrum fund_bin half h harmonic_amps_sq =
     (let bin_h = int h * fund_bin
      in if bin_h \<le> int half then harmonic_amps_sq + (spectrum ! nat bin_h)\<^sup>2
         else harmonic_amps_sq)"

definition compute_thd :: "real list \<Rightarrow> real \<Rightarrow> real \<Rightarrow> py_error + real" where
  "compute_thd signal fs fundamental =
     (let n = length signal
      in if n = 0 then Inr 0.0
         else
           let n_fft = max n (2 ^ ceil_log2 n);
               full_spectrum = map cmod (fft signal n_fft)
           in if fs = 0 then Inl ZeroDivisionError
              else
                let half = n_fft div 2;
                    spectrum = take (half + 1) full_spectrum;
                    nearest_bin = py_round (fundamental * real n_fft / fs);
                    fund_bin = max 1 (min nearest_bin (int half))
                in (case array_get spectrum fund_bin of
                      Inl e \<Rightarrow> Inl e
                    | Inr fund_amp \<Rightarrow>
                        if fund_amp \<le> 0 then Inr 0.0
                        else
                          let harmonic_amps_sq =
                                fold (add_harmonic spectrum fund_bin half) [2..<6] 0.0;
                              thd_pct = 100.0 * sqrt harmonic_amps_sq / fund_amp
                          in Inr (round_ndigits thd_pct 4)))"

definition compute_frequency_deviation :: "real list \<Rightarrow> real" where
  "compute_frequency_deviation frequency_array =
     (if length frequency_array = 0 then 0.0
      else let deviation = mean (map (\<lambda>f. \<bar>f - 50.0\<bar>) frequency_array)
           in round_ndigits deviation 4)"

record features =
  rms_voltage :: real
  thd_percent :: real
  frequency_deviation_hz :: real
  peak_voltage :: real
  anomaly_type :: string
  severity :: string

definition extract_features :: "butter_fn \<Rightarrow> filtfilt_fn \<Rightarrow> reading \<Rightarrow> py_error + features" where
  "extract_features butter filtfilt r =
     (let volt = voltage r; frequency_array = frequency r
      in (case bandpass_filter butter filtfilt volt 45.0 55.0 50 3 of
            Inl e \<Rightarrow> Inl e
          | Inr filtered \<Rightarrow>
              let rms = compute_rms volt
              in (case compute_thd volt 50 50.0 of
                    Inl e \<Rightarrow> Inl e
                  | Inr thd \<Rightarrow>
                      let deviation = compute_frequency_deviation frequency_array
                      in (case np_max (map abs filtered) of
                            Inl e \<Rightarrow> Inl e
                          | Inr peak \<Rightarrow>
                              Inr \<lparr>rms_voltage = rms, thd_percent = thd,
                                   frequency_deviation_hz = deviation,
                                   peak_voltage = round_ndigits peak 4,
                                   anomaly_type = reading.anomaly_type r,
                                   severity = reading.severity r\<rparr>))))"

subsection \<open>Total harmonic distortion as the specification describes it\<close>

text \<open>
  The specification's account of the distortion measure, written from its words and
  not from \<open>compute_thd\<close>: the transform length is the least power of two that is
  not below the signal length; the magnitude at a bin is the modulus of the discrete
  Fourier sum over the samples (the padding adds nothing); the fundamental bin is the
  nearest bin to \<open>fundamental * N / fs\<close>, kept inside \<open>1..N div 2\<close>; the harmonic bins
  are 2, 3, 4 and 5 times the fundamental bin, those beyond \<open>N div 2\<close> left out.
\<close>

definition spec_next_pow2 :: "nat \<Rightarrow> nat" where
  "spec_next_pow2 n = (LEAST m. n \<le> m \<and> (\<exists>k. m = 2 ^ k))"

definition spec_magnitude :: "real list \<Rightarrow> nat \<Rightarrow> nat \<Rightarrow> real" where
  "spec_magnitude x N k =
     cmod (\<Sum>m<length x. complex_of_real (x ! m) * cis (- (2 * pi * real k * real m / real N)))"

definition spec_thd_at :: "nat \<Rightarrow> real list \<Rightarrow> real \<Rightarrow> real \<Rightarrow> real" where
  "spec_thd_at N signal fs fundamental =
     (let half = N div 2;
          b = nat (max 1 (min (py_round (fundamental * real N / fs)) (int half)));
          fund = spec_magnitude signal N b;
          harm = (\<Sum>h\<in>{2, 3, 4, 5}.
                    if h * b \<le> half then (spec_magnitude signal N (h * b))\<^sup>2 else 0)
      in if 0 < fund then 100 * sqrt harm / fund else 0)"

definition spec_thd :: "real list \<Rightarrow> real \<Rightarrow> real \<Rightarrow> real" where
  "spec_thd signal fs fundamental =
     spec_thd_at (spec_next_pow2 (length signal)) signal fs fundamental"

subsection \<open>Sample inputs\<close>

text \<open>Concrete readings and filter routines on which the functions are run below.\<close>

definition sample_reading :: reading where
  "sample_reading =
     \<lparr>voltage = [1, - 1], frequency = [50.5, 49.5],
      anomaly_type = ''none'', severity = ''none''\<rparr>"

definition zero_reading :: reading where
  "zero_reading =
     \<lparr>voltage = replicate 50 0, frequency = replicate 50 50,
      anomaly_type = ''none'', severity = ''none''\<rparr>"

definition empty_reading :: reading where
  "empty_reading =
     \<lparr>voltage = [], frequency = [], anomaly_type = ''none'', severity = ''none''\<rparr>"

definition one_sample_reading :: reading where
  "one_sample_reading =
     \<lparr>voltage = [1], frequency = [50], anomaly_type = ''none'', severity = ''none''\<rparr>"

definition impulse :: "real list" where
  "impulse = [1, 0, 0, 0, 0, 0, 0, 0]"

definition unused_butter :: butter_fn where
  "unused_butter ord low high = Inl OtherError"

definition unused_filtfilt :: filtfilt_fn where
  "unused_filtfilt b a x = Inl OtherError"

definition unit_butter :: butter_fn where
  "unit_butter ord low high = Inr ([1], [1])"

definition short_filtfilt :: filtfilt_fn where
  "short_filtfilt b a x = Inl ValueError"

section \<open>Properties of the rounding functions\<close>

lemma py_round_lower: "x - 1 / 2 \<le> of_int (py_round x)"
  unfolding py_round_def Let_def by (simp; linarith)

lemma py_round_upper: "of_int (py_round x) \<le> x + 1 / 2"
  unfolding py_round_def Let_def by (simp; linarith)

lemma py_round_of_int [simp]: "py_round (of_int k) = k"
  unfolding py_round_def Let_def by simp

lemma py_round_nonneg: "0 \<le> x \<Longrightarrow> 0 \<le> py_round x"
  unfolding py_round_def Let_def by (simp; linarith)

lemma py_round_between:
  assumes "of_int k - 1 / 2 < x" and "x < of_int k + 1 / 2"
  shows "py_round x = k"
proof -
  have "\<lfloor>x\<rfloor> = k - 1 \<or> \<lfloor>x\<rfloor> = k" using assms by linarith
  then show ?thesis
  proof
    assume f: "\<lfloor>x\<rfloor> = k - 1"
    then have "1 / 2 < x - of_int \<lfloor>x\<rfloor>" using assms by simp
    then show ?thesis unfolding py_round_def Let_def using f by simp
  next
    assume f: "\<lfloor>x\<rfloor> = k"
    then have "x - of_int \<lfloor>x\<rfloor> < 1 / 2" using assms by simp
    then show ?thesis unfolding py_round_def Let_def using f by simp
  qed
qed

subsection \<open>Rounding to binary64\<close>

lemma fl64_0 [simp]: "fl64 0 = 0"
  by (simp add: fl64_def)

lemma fl64_nonneg: "0 \<le> x \<Longrightarrow> 0 \<le> fl64 x"
  unfolding fl64_def Let_def by (auto intro!: mult_nonneg_nonneg py_round_nonneg)

text \<open>The relative error of one rounding is at most \<open>2 ^ - 53\<close>.\<close>

lemma fl64_error: "\<bar>fl64 x - x\<bar> \<le> \<bar>x\<bar> / 2 ^ 53"
proof (cases "x = 0")
  case True
  then show ?thesis by simp
next
  case False
  define u :: real where "u = 2 powr (of_int \<lfloor>log 2 \<bar>x\<bar>\<rfloor> - 52)"
  have u0: "0 < u" unfolding u_def by simp
  have fl: "fl64 x = of_int (py_round (x / u)) * u"
    using False by (simp add: fl64_def Let_def u_def)
  have "\<bar>of_int (py_round (x / u)) - x / u\<bar> \<le> 1 / 2"
    using py_round_lower [of "x / u"] py_round_upper [of "x / u"] by linarith
  then have "\<bar>of_int (py_round (x / u)) - x / u\<bar> * u \<le> 1 / 2 * u"
    using u0 by (intro mult_right_mono) simp_all
  moreover have "\<bar>of_int (py_round (x / u)) - x / u\<bar> * u = \<bar>fl64 x - x\<bar>"
  proof -
    have "\<bar>of_int (py_round (x / u)) - x / u\<bar> * u
        = \<bar>(of_int (py_round (x / u)) - x / u) * u\<bar>"
      using u0 by (simp add: abs_mult)
    also have "(of_int (py_round (x / u)) - x / u) * u = fl64 x - x"
      using u0 by (simp add: fl left_diff_distrib)
    finally show ?thesis .
  qed
  ultimately have e: "\<bar>fl64 x - x\<bar> \<le> u / 2" by simp
  have "u \<le> 2 powr (log 2 \<bar>x\<bar> - 52)"
    unfolding u_def by (intro powr_mono) simp_all
  also have "\<dots> = \<bar>x\<bar> / 2 ^ 52"
    using False by (simp add: powr_diff powr_realpow [symmetric])
  finally have "u / 2 \<le> \<bar>x\<bar> / 2 ^ 52 / 2" by simp
  with e show ?thesis by simp
qed

lemma fl64_bounds:
  assumes "0 \<le> x"
  shows "x * (1 - 1 / 2 ^ 53) \<le> fl64 x" and "fl64 x \<le> x * (1 + 1 / 2 ^ 53)"
proof -
  have "\<bar>fl64 x - x\<bar> \<le> x / 2 ^ 53"
    using fl64_error [of x] assms by simp
  then have "x - x / 2 ^ 53 \<le> fl64 x" and "fl64 x \<le> x + x / 2 ^ 53"
    by linarith+
  then show "x * (1 - 1 / 2 ^ 53) \<le> fl64 x" and "fl64 x \<le> x * (1 + 1 / 2 ^ 53)"
    by (simp_all add: right_diff_distrib distrib_left)
qed

text \<open>Three roundings: of the literal, of the integer and of the product.\<close>

lemma fl64_product:
  assumes "0 \<le> c" and "0 \<le> x"
  shows "c * x * (1 - 1 / 10 ^ 6) \<le> fl64 (fl64 c * fl64 x)"
    and "fl64 (fl64 c * fl64 x) \<le> c * x * (1 + 1 / 10 ^ 6)"
proof -
  define e :: real where "e = 1 / 2 ^ 53"
  have e: "0 \<le> 1 - e" "0 \<le> 1 + e" "0 \<le> e" by (simp_all add: e_def)
  have c: "c * (1 - e) \<le> fl64 c" "fl64 c \<le> c * (1 + e)"
    unfolding e_def by (rule fl64_bounds [OF assms(1)])+
  have x: "x * (1 - e) \<le> fl64 x" "fl64 x \<le> x * (1 + e)"
    unfolding e_def by (rule fl64_bounds [OF assms(2)])+
  have c0: "0 \<le> fl64 c" and x0: "0 \<le> fl64 x"
    using assms by (simp_all add: fl64_nonneg)
  have p0: "0 \<le> fl64 c * fl64 x" using c0 x0 by simp
  have p: "fl64 c * fl64 x * (1 - e) \<le> fl64 (fl64 c * fl64 x)"
    "fl64 (fl64 c * fl64 x) \<le> fl64 c * fl64 x * (1 + e)"
    unfolding e_def by (rule fl64_bounds [OF p0])+
  have "(c * (1 - e)) * (x * (1 - e)) \<le> fl64 c * fl64 x"
    using c(1) x(1) c0 assms e by (intro mult_mono) simp_all
  then have "(c * (1 - e)) * (x * (1 - e)) * (1 - e) \<le> fl64 c * fl64 x * (1 - e)"
    using e by (intro mult_right_mono) simp_all
  with p(1) have lo: "c * x * ((1 - e) * (1 - e) * (1 - e)) \<le> fl64 (fl64 c * fl64 x)"
    by (simp add: mult_ac)
  have "fl64 c * fl64 x \<le> (c * (1 + e)) * (x * (1 + e))"
    using c(2) x(2) c0 x0 assms e by (intro mult_mono) simp_all
  then have "fl64 c * fl64 x * (1 + e) \<le> (c * (1 + e)) * (x * (1 + e)) * (1 + e)"
    using e by (intro mult_right_mono) simp_all
  with p(2) have hi: "fl64 (fl64 c * fl64 x) \<le> c * x * ((1 + e) * (1 + e) * (1 + e))"
    by (simp add: mult_ac)
  have cx: "0 \<le> c * x" using assms by simp
  have "1 - 1 / 10 ^ 6 \<le> (1 - e) * (1 - e) * (1 - e)"
    unfolding e_def by simp
  then have "c * x * (1 - 1 / 10 ^ 6) \<le> c * x * ((1 - e) * (1 - e) * (1 - e))"
    using cx by (rule mult_left_mono)
  with lo show "c * x * (1 - 1 / 10 ^ 6) \<le> fl64 (fl64 c * fl64 x)" by linarith
  have "(1 + e) * (1 + e) * (1 + e) \<le> 1 + 1 / 10 ^ 6"
    unfolding e_def by simp
  then have "c * x * ((1 + e) * (1 + e) * (1 + e)) \<le> c * x * (1 + 1 / 10 ^ 6)"
    using cx by (rule mult_left_mono)
  with hi show "fl64 (fl64 c * fl64 x) \<le> c * x * (1 + 1 / 10 ^ 6)" by linarith
qed

text \<open>
  The value of \<open>fl64\<close> at a number whose binary exponent is known, and the three
  roundings behind \<^verbatim>\<open>0.35 * 90\<close>.
\<close>

lemma fl64_eval:
  assumes "2 powi e \<le> \<bar>x\<bar>" and "\<bar>x\<bar> < 2 powi (e + 1)"
  shows "fl64 x = of_int (py_round (x / 2 powi (e - 52))) * 2 powi (e - 52)"
proof -
  have pos: "0 < \<bar>x\<bar>"
    using assms(1) by (rule less_le_trans [rotated]) simp
  then have x: "x \<noteq> 0" by simp
  have "2 powr of_int e \<le> \<bar>x\<bar>"
    using assms(1) by (simp add: powr_real_of_int')
  then have lo: "of_int e \<le> log 2 \<bar>x\<bar>"
    using pos by (simp add: le_log_iff)
  have "(2::real) powr of_int (e + 1) = 2 powi (e + 1)"
    by (rule powr_real_of_int') simp_all
  with assms(2) have "\<bar>x\<bar> < 2 powr of_int (e + 1)"
    by (simp only:)
  then have hi: "log 2 \<bar>x\<bar> < of_int e + 1"
    using pos by (simp add: log_less_iff)
  have fl: "\<lfloor>log 2 \<bar>x\<bar>\<rfloor> = e"
    using lo hi by linarith
  have "(2::real) powr (of_int e - 52) = 2 powr of_int (e - 52)" by simp
  also have "\<dots> = 2 powi (e - 52)" by (rule powr_real_of_int') simp_all
  finally have u: "2 powr (of_int e - 52) = (2::real) powi (e - 52)" .
  show ?thesis
    using x by (simp add: fl64_def Let_def fl u)
qed

lemma fl64_035: "fl64 0.35 = 6305039478318694 / 2 ^ 54"
proof -
  have r: "py_round (0.35 * 2 ^ 54) = 6305039478318694"
    by (rule py_round_between) simp_all
  have "fl64 0.35 = of_int (py_round (0.35 / 2 powi (- 2 - 52))) * 2 powi (- 2 - 52)"
    by (rule fl64_eval) (simp_all add: power_int_minus)
  also have "(0.35::real) / 2 powi (- 2 - 52) = 0.35 * 2 ^ 54"
    by (simp add: power_int_minus)
  finally show ?thesis
    unfolding r by (simp add: power_int_minus)
qed

lemma fl64_90: "fl64 90 = 90"
proof -
  have r: "py_round (90 * 2 ^ 46) = 90 * 2 ^ 46"
    by (rule py_round_between) simp_all
  have "fl64 90 = of_int (py_round (90 / 2 powi (6 - 52))) * 2 powi (6 - 52)"
    by (rule fl64_eval) (simp_all add: power_int_minus)
  also have "(90::real) / 2 powi (6 - 52) = 90 * 2 ^ 46"
    by (simp add: power_int_minus)
  finally show ?thesis
    unfolding r by (simp add: power_int_minus)
qed

lemma fl64_035_90:
  "fl64 (6305039478318694 / 2 ^ 54 * 90) = 8866461766385663 / 2 ^ 48"
proof -
  define x :: real where "x = 6305039478318694 / 2 ^ 54 * 90"
  have r: "py_round (x * 2 ^ 48) = 8866461766385663"
    unfolding x_def by (rule py_round_between) simp_all
  have "fl64 x = of_int (py_round (x / 2 powi (4 - 52))) * 2 powi (4 - 52)"
    unfolding x_def by (rule fl64_eval) (simp_all add: power_int_minus)
  also have "x / 2 powi (4 - 52) = x * 2 ^ 48"
    by (simp add: power_int_minus)
  finally show ?thesis
    unfolding r by (simp add: power_int_minus x_def)
qed

section \<open>The signal simulator\<close>

subsection \<open>Shuffling keeps the readings\<close>

lemma mset_shuffle_from:
  "i < length xs \<Longrightarrow> mset (fst (shuffle_from i xs g)) = mset xs"
proof (induction i arbitrary: xs g)
  case 0
  then show ?case by simp
next
  case (Suc i)
  have "integers g 0 mod Suc (Suc i) < Suc (Suc i)"
    by (rule mod_less_divisor) simp
  with Suc.prems have j: "integers g 0 mod Suc (Suc i) < length xs"
    by linarith
  with Suc show ?case
    by (simp add: random_randint_def Let_def mset_swap)
qed

lemma mset_shuffle: "mset (fst (shuffle xs g)) = mset xs"
  by (cases xs) (simp_all add: shuffle_def mset_shuffle_from)

lemma count_type_mset: "mset xs = mset ys \<Longrightarrow> count_type ty xs = count_type ty ys"
  unfolding count_type_def by (metis mset_filter size_mset)

lemma count_type_append: "count_type ty (xs @ ys) = count_type ty xs + count_type ty ys"
  by (simp add: count_type_def)

lemma count_type_all:
  "\<forall>r\<in>set xs. reading.anomaly_type r = ty' \<Longrightarrow>
     count_type ty xs = (if ty = ty' then length xs else 0)"
  by (induction xs) (auto simp: count_type_def)

subsection \<open>One reading\<close>

lemma length_base_sine: "length base_sine = 50"
  by (simp add: base_sine_def sample_times_def SAMPLES_PER_READING_def)

lemma base_sine_le_1: "k < 50 \<Longrightarrow> base_sine ! k \<le> 1"
  by (simp add: base_sine_def sample_times_def SAMPLES_PER_READING_def)

lemma gen_normal_type: "reading.anomaly_type (fst (generate_normal_signal g)) = ''none''"
  by (simp add: generate_normal_signal_def Let_def split: prod.splits)

lemma gen_point_type: "reading.anomaly_type (fst (generate_point_anomaly g)) = ''point''"
  by (simp add: generate_point_anomaly_def Let_def split: prod.splits)

lemma gen_trend_type: "reading.anomaly_type (fst (generate_trend_anomaly g)) = ''trend''"
  by (simp add: generate_trend_anomaly_def Let_def split: prod.splits)

lemma gen_normal_len:
  "length (voltage (fst (generate_normal_signal g))) = 50 \<and>
   length (frequency (fst (generate_normal_signal g))) = 50"
  by (simp add: generate_normal_signal_def Let_def random_normal_def length_base_sine
      SAMPLES_PER_READING_def split: prod.splits)

lemma gen_point_len:
  "length (voltage (fst (generate_point_anomaly g))) = 50 \<and>
   length (frequency (fst (generate_point_anomaly g))) = 50"
  by (simp add: generate_point_anomaly_def Let_def random_normal_def random_uniform_def
      random_randint_def length_base_sine SAMPLES_PER_READING_def split: prod.splits)

lemma gen_trend_len:
  "length (voltage (fst (generate_trend_anomaly g))) = 50 \<and>
   length (frequency (fst (generate_trend_anomaly g))) = 50"
  by (simp add: generate_trend_anomaly_def Let_def random_normal_def length_base_sine
      linspace_def SAMPLES_PER_READING_def split: prod.splits)

subsection \<open>A batch\<close>

text \<open>What \<open>k\<close> rounds of a generator append to the list of readings.\<close>

lemma append_generated_shape:
  assumes "\<And>g. P (fst (gen g))"
  shows "\<exists>new. fst (append_generated gen k rs g) = rs @ new \<and> length new = k
           \<and> (\<forall>r\<in>set new. P r)"
proof (induction k arbitrary: rs g)
  case 0
  then show ?case by simp
next
  case (Suc k)
  obtain r g' where step: "gen g = (r, g')" by (cases "gen g")
  from Suc.IH [of "rs @ [r]" g'] obtain new where
    new: "fst (append_generated gen k (rs @ [r]) g') = (rs @ [r]) @ new" "length new = k"
      "\<forall>x\<in>set new. P x" by blast
  have "P r" using assms [of g] step by simp
  with new step show ?case
    by (intro exI [of _ "r # new"]) simp
qed

text \<open>A batch is a rearrangement of three runs of readings, one per anomaly type.\<close>

lemma generate_batch_parts:
  "\<exists>ns ps ts. mset (fst (generate_batch n g)) = mset (ns @ ps @ ts)
     \<and> length ns = nat (py_round (float_times_int 0.40 n))
     \<and> length ps = nat (py_round (float_times_int 0.35 n))
     \<and> length ts
          = nat (n - py_round (float_times_int 0.40 n) - py_round (float_times_int 0.35 n))
     \<and> (\<forall>r\<in>set ns. reading.anomaly_type r = ''none''
            \<and> length (voltage r) = 50 \<and> length (frequency r) = 50)
     \<and> (\<forall>r\<in>set ps. reading.anomaly_type r = ''point''
            \<and> length (voltage r) = 50 \<and> length (frequency r) = 50)
     \<and> (\<forall>r\<in>set ts. reading.anomaly_type r = ''trend''
            \<and> length (voltage r) = 50 \<and> length (frequency r) = 50)"
proof -
  define a where "a = py_round (float_times_int 0.40 n)"
  define b where "b = py_round (float_times_int 0.35 n)"
  define c where "c = n - a - b"
  obtain rs1 g1 where s1: "append_generated generate_normal_signal (nat a) [] g = (rs1, g1)"
    by (cases "append_generated generate_normal_signal (nat a) [] g")
  obtain rs2 g2 where s2: "append_generated generate_point_anomaly (nat b) rs1 g1 = (rs2, g2)"
    by (cases "append_generated generate_point_anomaly (nat b) rs1 g1")
  obtain rs3 g3 where s3: "append_generated generate_trend_anomaly (nat c) rs2 g2 = (rs3, g3)"
    by (cases "append_generated generate_trend_anomaly (nat c) rs2 g2")
  have batch: "generate_batch n g = shuffle rs3 g3"
    using s1 s2 s3 by (simp add: generate_batch_def Let_def a_def b_def c_def)
  from append_generated_shape [of "\<lambda>r. reading.anomaly_type r = ''none''
      \<and> length (voltage r) = 50 \<and> length (frequency r) = 50"
      generate_normal_signal "nat a" "[]" g]
  obtain ns where ns: "rs1 = ns" "length ns = nat a"
    "\<forall>r\<in>set ns. reading.anomaly_type r = ''none''
       \<and> length (voltage r) = 50 \<and> length (frequency r) = 50"
    using s1 by (auto simp: gen_normal_type gen_normal_len)
  from append_generated_shape [of "\<lambda>r. reading.anomaly_type r = ''point''
      \<and> length (voltage r) = 50 \<and> length (frequency r) = 50"
      generate_point_anomaly "nat b" rs1 g1]
  obtain ps where ps: "rs2 = rs1 @ ps" "length ps = nat b"
    "\<forall>r\<in>set ps. reading.anomaly_type r = ''point''
       \<and> length (voltage r) = 50 \<and> length (frequency r) = 50"
    using s2 by (auto simp: gen_point_type gen_point_len)
  from append_generated_shape [of "\<lambda>r. reading.anomaly_type r = ''trend''
      \<and> length (voltage r) = 50 \<and> length (frequency r) = 50"
      generate_trend_anomaly "nat c" rs2 g2]
  obtain ts where ts: "rs3 = rs2 @ ts" "length ts = nat c"
    "\<forall>r\<in>set ts. reading.anomaly_type r = ''trend''
       \<and> length (voltage r) = 50 \<and> length (frequency r) = 50"
    using s3 by (auto simp: gen_trend_type gen_trend_len)
  have "mset (fst (generate_batch n g)) = mset (ns @ ps @ ts)"
    using batch ns(1) ps(1) ts(1) by (simp add: mset_shuffle)
  with ns ps ts show ?thesis
    unfolding a_def b_def c_def by blast
qed

text \<open>
  A rounded share \<^verbatim>\<open>int(round(c * n))\<close> is not negative and lies within one half, and a
  relative error of \<open>10 ^ - 6\<close>, of the exact product.
\<close>

lemma float_times_int_nonneg: "0 \<le> c \<Longrightarrow> 0 \<le> n \<Longrightarrow> 0 \<le> float_times_int c n"
  unfolding float_times_int_def by (intro fl64_nonneg mult_nonneg_nonneg) simp_all

lemma share_near:
  assumes "0 \<le> c" and "0 \<le> n"
    and "of_int k - 1 / 2 < c * of_int n * (1 - 1 / 10 ^ 6)"
    and "c * of_int n * (1 + 1 / 10 ^ 6) < of_int k + 1 / 2"
  shows "py_round (float_times_int c n) = k"
proof -
  have n: "0 \<le> real_of_int n" using assms(2) by simp
  from fl64_product [OF assms(1) n] assms(3,4) show ?thesis
    unfolding float_times_int_def by (intro py_round_between) linarith+
qed

lemma share_upper:
  assumes "0 \<le> c" and "0 \<le> n"
  shows "of_int (py_round (float_times_int c n)) \<le> c * of_int n * (1 + 1 / 10 ^ 6) + 1 / 2"
proof -
  have n: "0 \<le> real_of_int n" using assms(2) by simp
  from fl64_product(2) [OF assms(1) n]
    py_round_upper [of "fl64 (fl64 c * fl64 (of_int n))"]
  show ?thesis unfolding float_times_int_def by linarith
qed

text \<open>
  \<^verbatim>\<open>0.35 * 90\<close> is \<open>31.499999999999996\<close> in binary64, below the tie \<open>31.5\<close> of
  the exact product: the batch of 90 has 31 readings of type "point", not 32.
\<close>

lemma share_035_90:
  "py_round (float_times_int 0.35 90) = 31 \<and> py_round (0.35 * 90) = 32"
proof
  have v: "fl64 (fl64 0.35 * fl64 90) = 8866461766385663 / 2 ^ 48"
    unfolding fl64_035 fl64_90 by (rule fl64_035_90)
  have "py_round (float_times_int 0.35 90) = py_round (fl64 (fl64 0.35 * fl64 90))"
    unfolding float_times_int_def by simp
  also have "\<dots> = py_round (8866461766385663 / 2 ^ 48)"
    by (simp only: v)
  also have "\<dots> = 31"
    by (rule py_round_between) simp_all
  finally show "py_round (float_times_int 0.35 90) = 31" .
  show "py_round (0.35 * 90) = 32"
    by (simp add: py_round_def Let_def)
qed

text \<open>The two rounded shares never exceed the batch size, so the remainder is not negative.\<close>

lemma split_counts_le:
  assumes "0 \<le> n"
  shows "py_round (float_times_int 0.40 n) + py_round (float_times_int 0.35 n) \<le> n"
proof (cases "5 \<le> n")
  case True
  have a: "of_int (py_round (float_times_int 0.40 n))
      \<le> 0.40 * real_of_int n * (1 + 1 / 10 ^ 6) + 1 / 2"
    by (rule share_upper [OF _ assms]) simp
  have b: "of_int (py_round (float_times_int 0.35 n))
      \<le> 0.35 * real_of_int n * (1 + 1 / 10 ^ 6) + 1 / 2"
    by (rule share_upper [OF _ assms]) simp
  have "real_of_int (py_round (float_times_int 0.40 n) + py_round (float_times_int 0.35 n))
      \<le> real_of_int n"
    using a b True by simp
  then show ?thesis by linarith
next
  case False
  with assms consider "n = 0" | "n = 1" | "n = 2" | "n = 3" | "n = 4" by linarith
  then show ?thesis
  proof cases
    case 1
    have "py_round (float_times_int 0.40 n) = 0" "py_round (float_times_int 0.35 n) = 0"
      unfolding 1 by (rule share_near; simp)+
    then show ?thesis using 1 by simp
  next
    case 2
    have "py_round (float_times_int 0.40 n) = 0" "py_round (float_times_int 0.35 n) = 0"
      unfolding 2 by (rule share_near; simp)+
    then show ?thesis using 2 by simp
  next
    case 3
    have "py_round (float_times_int 0.40 n) = 1" "py_round (float_times_int 0.35 n) = 1"
      unfolding 3 by (rule share_near; simp)+
    then show ?thesis using 3 by simp
  next
    case 4
    have "py_round (float_times_int 0.40 n) = 1" "py_round (float_times_int 0.35 n) = 1"
      unfolding 4 by (rule share_near; simp)+
    then show ?thesis using 4 by simp
  next
    case 5
    have "py_round (float_times_int 0.40 n) = 2" "py_round (float_times_int 0.35 n) = 1"
      unfolding 5 by (rule share_near; simp)+
    then show ?thesis using 5 by simp
  qed
qed

lemma length_generate_batch:
  assumes "0 \<le> n"
  shows "length (fst (generate_batch n g)) = nat n"
proof -
  define a where "a = py_round (float_times_int 0.40 n)"
  define b where "b = py_round (float_times_int 0.35 n)"
  have a0: "0 \<le> a"
    unfolding a_def using assms by (intro py_round_nonneg float_times_int_nonneg) simp_all
  have b0: "0 \<le> b"
    unfolding b_def using assms by (intro py_round_nonneg float_times_int_nonneg) simp_all
  have ab: "a + b \<le> n" unfolding a_def b_def by (rule split_counts_le [OF assms])
  from generate_batch_parts [of n g] obtain ns ps ts where
    m: "mset (fst (generate_batch n g)) = mset (ns @ ps @ ts)"
    and l: "length ns = nat a" "length ps = nat b" "length ts = nat (n - a - b)"
    unfolding a_def b_def by blast
  have "length (fst (generate_batch n g)) = length (ns @ ps @ ts)"
    using m by (metis size_mset)
  also have "\<dots> = nat a + nat b + nat (n - a - b)"
    using l by simp
  also have "\<dots> = nat n"
    using a0 b0 ab by linarith
  finally show ?thesis .
qed

text \<open>
  Claim C1. For every integer \<open>n \<ge> 0\<close>, \<open>generate_batch n\<close> returns exactly \<open>n\<close>
  readings: \<open>round (0.40 n)\<close> of anomaly type "none", \<open>round (0.35 n)\<close> of type
  "point" and the remainder \<open>n - round (0.40 n) - round (0.35 n)\<close> of type "trend".
  The remainder is never negative and the three counts sum to \<open>n\<close>. Here
  \<open>round (c n)\<close> is what \<^verbatim>\<open>int(round(c * n))\<close> computes: the binary64 product rounded
  to the nearest integer, a tie to the even one.
\<close>

theorem generate_batch_split:
  assumes "0 \<le> n"
  shows "length (fst (generate_batch n g)) = nat n
    \<and> int (count_type ''none'' (fst (generate_batch n g))) = py_round (float_times_int 0.40 n)
    \<and> int (count_type ''point'' (fst (generate_batch n g))) = py_round (float_times_int 0.35 n)
    \<and> int (count_type ''trend'' (fst (generate_batch n g)))
        = n - py_round (float_times_int 0.40 n) - py_round (float_times_int 0.35 n)
    \<and> 0 \<le> n - py_round (float_times_int 0.40 n) - py_round (float_times_int 0.35 n)
    \<and> int (count_type ''none'' (fst (generate_batch n g)))
        + int (count_type ''point'' (fst (generate_batch n g)))
        + int (count_type ''trend'' (fst (generate_batch n g))) = n"
proof -
  define a where "a = py_round (float_times_int 0.40 n)"
  define b where "b = py_round (float_times_int 0.35 n)"
  have a0: "0 \<le> a"
    unfolding a_def using assms by (intro py_round_nonneg float_times_int_nonneg) simp_all
  have b0: "0 \<le> b"
    unfolding b_def using assms by (intro py_round_nonneg float_times_int_nonneg) simp_all
  have ab: "a + b \<le> n" unfolding a_def b_def by (rule split_counts_le [OF assms])
  from generate_batch_parts [of n g] obtain ns ps ts where
    m: "mset (fst (generate_batch n g)) = mset (ns @ ps @ ts)"
    and l: "length ns = nat a" "length ps = nat b" "length ts = nat (n - a - b)"
    and t: "\<forall>r\<in>set ns. reading.anomaly_type r = ''none''"
      "\<forall>r\<in>set ps. reading.anomaly_type r = ''point''"
      "\<forall>r\<in>set ts. reading.anomaly_type r = ''trend''"
    unfolding a_def b_def by blast
  have len: "length (fst (generate_batch n g)) = length (ns @ ps @ ts)"
    using m by (metis size_mset)
  have cnt: "count_type ty (fst (generate_batch n g)) = count_type ty (ns @ ps @ ts)" for ty
    using m by (rule count_type_mset)
  have c1: "count_type ''none'' (ns @ ps @ ts) = nat a"
    using l by (simp add: count_type_append count_type_all [OF t(1)] count_type_all [OF t(2)]
        count_type_all [OF t(3)])
  have c2: "count_type ''point'' (ns @ ps @ ts) = nat b"
    using l by (simp add: count_type_append count_type_all [OF t(1)] count_type_all [OF t(2)]
        count_type_all [OF t(3)])
  have c3: "count_type ''trend'' (ns @ ps @ ts) = nat (n - a - b)"
    using l by (simp add: count_type_append count_type_all [OF t(1)] count_type_all [OF t(2)]
        count_type_all [OF t(3)])
  show ?thesis
    unfolding a_def [symmetric] b_def [symmetric] cnt len c1 c2 c3
    using l a0 b0 ab by simp
qed

theorem generate_batch_split_witness:
  "(0::int) \<le> 2
    \<and> length (fst (generate_batch 2 rng0)) = 2
    \<and> count_type ''none'' (fst (generate_batch 2 rng0)) = 1
    \<and> count_type ''point'' (fst (generate_batch 2 rng0)) = 1
    \<and> count_type ''trend'' (fst (generate_batch 2 rng0)) = 0"
proof -
  have a: "py_round (float_times_int 0.40 2) = 1"
    by (rule share_near) simp_all
  have b: "py_round (float_times_int 0.35 2) = 1"
    by (rule share_near) simp_all
  from generate_batch_split [of 2 rng0] show ?thesis
    unfolding a b by simp
qed

text \<open>
  Claim C4. A reading of \<open>generate_point_anomaly\<close> has anomaly type "point". Its
  voltage is the voltage of a normal reading with one sample overwritten by a spike
  value \<open>s\<close> with \<open>1.3 \<le> s \<le> 1.5\<close>, which is the only sample that differs; the
  severity is "high" exactly when \<open>s > 1.4\<close> and "medium" otherwise. The hypothesis
  is NumPy's contract for the unit variate behind \<^verbatim>\<open>np.random.uniform\<close>.
\<close>

theorem point_anomaly_spike:
  assumes "0 \<le> uniforms g 0" and "uniforms g 0 < 1"
  shows "\<exists>i s. i < 50 \<and> 1.3 \<le> s \<and> s \<le> 1.5
    \<and> reading.anomaly_type (fst (generate_point_anomaly g)) = ''point''
    \<and> voltage (fst (generate_point_anomaly g))
        = (voltage (fst (generate_normal_signal g)))[i := s]
    \<and> voltage (fst (generate_point_anomaly g)) ! i = s
    \<and> (\<forall>k<50. voltage (fst (generate_point_anomaly g)) ! k
                  \<noteq> voltage (fst (generate_normal_signal g)) ! k \<longleftrightarrow> k = i)
    \<and> (reading.severity (fst (generate_point_anomaly g)) = ''high'' \<longleftrightarrow> 1.4 < s)
    \<and> (reading.severity (fst (generate_point_anomaly g)) = ''medium'' \<longleftrightarrow> s \<le> 1.4)"
proof -
  define s where "s = 1.3 + (1.5 - 1.3) * uniforms g 0"
  define i where "i = integers g 0 mod 50"
  define base where "base = map (\<lambda>s. NOMINAL_VOLTAGE * s) base_sine"
  have i50: "i < 50" unfolding i_def by simp
  have s_lo: "1.3 \<le> s" and s_hi: "s \<le> 1.5"
    using assms unfolding s_def by simp_all
  have lb: "length base = 50" unfolding base_def by (simp add: length_base_sine)
  have normal: "voltage (fst (generate_normal_signal g)) = base"
    by (simp add: generate_normal_signal_def Let_def base_def split: prod.splits)
  have point: "voltage (fst (generate_point_anomaly g)) = base[i := s]"
    by (simp add: generate_point_anomaly_def Let_def base_def s_def i_def random_normal_def
        random_uniform_def random_randint_def SAMPLES_PER_READING_def split: prod.splits)
  have sev: "reading.severity (fst (generate_point_anomaly g))
      = (if 1.4 < s then ''high'' else ''medium'')"
    by (simp add: generate_point_anomaly_def Let_def s_def random_normal_def
        random_uniform_def random_randint_def split: prod.splits)
  have small: "base ! k < s" if "k < 50" for k
  proof -
    have "base ! k = base_sine ! k"
      using that by (simp add: base_def NOMINAL_VOLTAGE_def length_base_sine)
    with base_sine_le_1 [OF that] s_lo show ?thesis by simp
  qed
  have differs: "\<forall>k<50. base[i := s] ! k \<noteq> base ! k \<longleftrightarrow> k = i"
  proof (intro allI impI)
    fix k :: nat
    assume k: "k < 50"
    show "base[i := s] ! k \<noteq> base ! k \<longleftrightarrow> k = i"
      using small [OF k] k lb by (cases "k = i") simp_all
  qed
  have "i < 50 \<and> 1.3 \<le> s \<and> s \<le> 1.5
    \<and> reading.anomaly_type (fst (generate_point_anomaly g)) = ''point''
    \<and> voltage (fst (generate_point_anomaly g))
        = (voltage (fst (generate_normal_signal g)))[i := s]
    \<and> voltage (fst (generate_point_anomaly g)) ! i = s
    \<and> (\<forall>k<50. voltage (fst (generate_point_anomaly g)) ! k
                  \<noteq> voltage (fst (generate_normal_signal g)) ! k \<longleftrightarrow> k = i)
    \<and> (reading.severity (fst (generate_point_anomaly g)) = ''high'' \<longleftrightarrow> 1.4 < s)
    \<and> (reading.severity (fst (generate_point_anomaly g)) = ''medium'' \<longleftrightarrow> s \<le> 1.4)"
    unfolding normal point sev using i50 s_lo s_hi lb differs gen_point_type [of g]
    by simp
  then show ?thesis by blast
qed

theorem point_anomaly_spike_witness:
  "0 \<le> uniforms rng0 0 \<and> uniforms rng0 0 < 1
    \<and> (\<exists>i s. i < 50 \<and> 1.3 \<le> s \<and> s \<le> 1.5
      \<and> reading.anomaly_type (fst (generate_point_anomaly rng0)) = ''point''
      \<and> voltage (fst (generate_point_anomaly rng0))
          = (voltage (fst (generate_normal_signal rng0)))[i := s]
      \<and> voltage (fst (generate_point_anomaly rng0)) ! i = s
      \<and> (\<forall>k<50. voltage (fst (generate_point_anomaly rng0)) ! k
                    \<noteq> voltage (fst (generate_normal_signal rng0)) ! k \<longleftrightarrow> k = i)
      \<and> (reading.severity (fst (generate_point_anomaly rng0)) = ''high'' \<longleftrightarrow> 1.4 < s)
      \<and> (reading.severity (fst (generate_point_anomaly rng0)) = ''medium'' \<longleftrightarrow> s \<le> 1.4))"
proof -
  have h: "0 \<le> uniforms rng0 0" "uniforms rng0 0 < 1"
    by (simp_all add: rng0_def)
  from point_anomaly_spike [OF h] h show ?thesis by blast
qed

text \<open>
  Claim C5. Every reading of \<open>generate_normal_signal\<close>, \<open>generate_point_anomaly\<close>
  and \<open>generate_trend_anomaly\<close>, and so every reading of a batch of
  \<open>generate_batch\<close>, has 50 voltage samples and 50 frequency samples.
\<close>

theorem readings_have_50_samples:
  "length (voltage (fst (generate_normal_signal g))) = 50
    \<and> length (frequency (fst (generate_normal_signal g))) = 50
    \<and> length (voltage (fst (generate_point_anomaly g))) = 50
    \<and> length (frequency (fst (generate_point_anomaly g))) = 50
    \<and> length (voltage (fst (generate_trend_anomaly g))) = 50
    \<and> length (frequency (fst (generate_trend_anomaly g))) = 50
    \<and> (\<forall>r\<in>set (fst (generate_batch n g)).
          length (voltage r) = 50 \<and> length (frequency r) = 50)"
proof -
  from generate_batch_parts [of n g] obtain ns ps ts where
    m: "mset (fst (generate_batch n g)) = mset (ns @ ps @ ts)"
    and t: "\<forall>r\<in>set ns. length (voltage r) = 50 \<and> length (frequency r) = 50"
      "\<forall>r\<in>set ps. length (voltage r) = 50 \<and> length (frequency r) = 50"
      "\<forall>r\<in>set ts. length (voltage r) = 50 \<and> length (frequency r) = 50"
    by blast
  have "set (fst (generate_batch n g)) = set (ns @ ps @ ts)"
    using m by (metis set_mset_mset)
  with t have "\<forall>r\<in>set (fst (generate_batch n g)).
      length (voltage r) = 50 \<and> length (frequency r) = 50"
    by auto
  with gen_normal_len [of g] gen_point_len [of g] gen_trend_len [of g]
  show ?thesis by simp
qed

theorem readings_have_50_samples_witness:
  "fst (generate_batch 3 rng0) \<noteq> []
    \<and> length (voltage (hd (fst (generate_batch 3 rng0)))) = 50
    \<and> length (frequency (hd (fst (generate_batch 3 rng0)))) = 50"
proof -
  have "length (fst (generate_batch 3 rng0)) = 3"
    using length_generate_batch [of 3 rng0] by simp
  then have ne: "fst (generate_batch 3 rng0) \<noteq> []" by auto
  then have "hd (fst (generate_batch 3 rng0)) \<in> set (fst (generate_batch 3 rng0))"
    by (rule hd_in_set)
  with readings_have_50_samples [of rng0 3] ne show ?thesis by blast
qed

section \<open>The feature extractor\<close>

subsection \<open>More on rounding\<close>

lemma py_round_numeral [simp]: "py_round (numeral w) = numeral w"
  using py_round_of_int [of "numeral w"] by simp

lemma py_round_1 [simp]: "py_round 1 = 1"
  using py_round_of_int [of 1] by simp

lemma py_round_0 [simp]: "py_round 0 = 0"
  using py_round_of_int [of 0] by simp

lemma sqrt3_bounds: "1.7320505 < sqrt 3" "sqrt 3 < 1.7320515"
proof -
  show "1.7320505 < sqrt 3" by (rule real_less_rsqrt) (simp add: power2_eq_square)
  show "sqrt 3 < 1.7320515" by (rule real_less_lsqrt) (simp_all add: power2_eq_square)
qed

lemma round_100_sqrt3: "round_ndigits (100 * sqrt 3) 4 = 1732051 / 10000"
proof -
  have "py_round (100 * sqrt 3 * 10 ^ 4) = 1732051"
    using sqrt3_bounds by (intro py_round_between) simp_all
  then show ?thesis by (simp add: round_ndigits_def)
qed

lemma round_ndigits_nonneg: "0 \<le> x \<Longrightarrow> 0 \<le> round_ndigits x k"
  unfolding round_ndigits_def using py_round_nonneg [of "x * 10 ^ k"] by simp

lemma round_ndigits_decimals: "round_ndigits x k * 10 ^ k \<in> \<int>"
  by (simp add: round_ndigits_def)

lemma round_ndigits_error: "\<bar>round_ndigits x k - x\<bar> \<le> (1 / 2) / 10 ^ k"
proof -
  define r where "r = real_of_int (py_round (x * 10 ^ k))"
  have "\<bar>r - x * 10 ^ k\<bar> \<le> 1 / 2"
    unfolding r_def
    using py_round_lower [of "x * 10 ^ k"] py_round_upper [of "x * 10 ^ k"] by linarith
  then have "\<bar>r - x * 10 ^ k\<bar> / 10 ^ k \<le> (1 / 2) / 10 ^ k"
    by (rule divide_right_mono) simp
  moreover have "round_ndigits x k - x = (r - x * 10 ^ k) / 10 ^ k"
    by (simp add: round_ndigits_def r_def diff_divide_distrib)
  ultimately show ?thesis by simp
qed

subsection \<open>The transform length\<close>

lemma ceil_log2_eq: "1 \<le> n \<Longrightarrow> int (ceil_log2 n) = \<lceil>log 2 (real n)\<rceil>"
proof (induction n rule: ceil_log2.induct)
  case (1 n)
  show ?case
  proof (cases "n \<le> 1")
    case True
    with "1.prems" have "n = 1" by simp
    then show ?thesis by (simp add: ceil_log2.simps)
  next
    case False
    then have n2: "2 \<le> n" by simp
    have half: "(n - 1) div 2 + 1 = (n + 1) div 2" using n2 by arith
    have "1 \<le> (n + 1) div 2" using n2 by arith
    with "1.IH" False have ih: "int (ceil_log2 ((n + 1) div 2)) = \<lceil>log 2 (real ((n + 1) div 2))\<rceil>"
      by simp
    have "\<lceil>log 2 (real n)\<rceil> = \<lceil>log 2 (real ((n - 1) div 2 + 1))\<rceil> + 1"
      using ceiling_log2_div2 [OF n2] by simp
    also have "\<dots> = int (ceil_log2 ((n + 1) div 2)) + 1"
      unfolding half ih ..
    also have "\<dots> = int (ceil_log2 n)"
      using False by (subst (2) ceil_log2.simps) simp
    finally show ?thesis by simp
  qed
qed

lemma ceil_log2_upper: "n \<le> 2 ^ ceil_log2 n"
proof (induction n rule: ceil_log2.induct)
  case (1 n)
  show ?case
  proof (cases "n \<le> 1")
    case True
    then show ?thesis by (simp add: ceil_log2.simps)
  next
    case False
    with "1.IH" have "(n + 1) div 2 \<le> 2 ^ ceil_log2 ((n + 1) div 2)" by simp
    then have "n \<le> 2 * 2 ^ ceil_log2 ((n + 1) div 2)" by arith
    then show ?thesis using False by (subst ceil_log2.simps) simp
  qed
qed

lemma ceil_log2_lower: "2 \<le> n \<Longrightarrow> 2 ^ (ceil_log2 n - 1) < n"
proof (induction n rule: ceil_log2.induct)
  case (1 n)
  then have F: "\<not> n \<le> 1" by simp
  let ?m = "(n + 1) div 2"
  have unf: "ceil_log2 n = Suc (ceil_log2 ?m)"
    using F by (subst ceil_log2.simps) simp
  show ?case
  proof (cases "2 \<le> ?m")
    case True
    with "1.IH" F have ih: "2 ^ (ceil_log2 ?m - 1) < ?m" by simp
    have pos: "0 < ceil_log2 ?m"
      using True by (subst ceil_log2.simps) simp
    then have "(2::nat) ^ ceil_log2 ?m = 2 * 2 ^ (ceil_log2 ?m - 1)"
      by (cases "ceil_log2 ?m") simp_all
    with ih have lt: "(2::nat) ^ ceil_log2 ?m < 2 * ?m" by simp
    have ev: "even ((2::nat) ^ ceil_log2 ?m)" using pos by simp
    have "(2::nat) ^ ceil_log2 ?m < n"
    proof (cases "even n")
      case True
      then have "2 * ?m = n" by (auto elim: evenE)
      with lt show ?thesis by simp
    next
      case False
      then have "2 * ?m = n + 1" by (auto elim: oddE)
      with lt have "(2::nat) ^ ceil_log2 ?m \<le> n" by simp
      moreover have "(2::nat) ^ ceil_log2 ?m \<noteq> n" using ev False by metis
      ultimately show ?thesis by simp
    qed
    then show ?thesis unfolding unf by simp
  next
    case False
    then have "?m \<le> 1" by simp
    then have "ceil_log2 ?m = 0" by (subst ceil_log2.simps) simp
    then show ?thesis unfolding unf using "1.prems" by simp
  qed
qed

lemma spec_next_pow2_eq: "1 \<le> n \<Longrightarrow> spec_next_pow2 n = 2 ^ ceil_log2 n"
  unfolding spec_next_pow2_def
proof (rule Least_equality)
  show "n \<le> 2 ^ ceil_log2 n \<and> (\<exists>k. (2::nat) ^ ceil_log2 n = 2 ^ k)"
    using ceil_log2_upper by blast
next
  fix m :: nat
  assume n1: "1 \<le> n" and "n \<le> m \<and> (\<exists>k. m = 2 ^ k)"
  then obtain k where m: "m = 2 ^ k" and nm: "n \<le> 2 ^ k" by blast
  show "2 ^ ceil_log2 n \<le> m"
  proof (cases "2 \<le> n")
    case True
    from ceil_log2_lower [OF True] nm have "(2::nat) ^ (ceil_log2 n - 1) < 2 ^ k"
      by (rule less_le_trans)
    then have "ceil_log2 n - 1 < k" by (rule power_less_imp_less_exp [rotated]) simp
    then have "ceil_log2 n \<le> k" by simp
    then show ?thesis unfolding m by simp
  next
    case False
    with n1 have "n = 1" by simp
    then show ?thesis unfolding m by (simp add: ceil_log2.simps)
  qed
qed

subsection \<open>The spectrum\<close>

lemma length_fft [simp]: "length (fft x n) = n"
  by (simp add: fft_def Let_def)

lemma fft_nth:
  assumes "length x \<le> n" and "k < n"
  shows "fft x n ! k
    = (\<Sum>m<length x. complex_of_real (x ! m) * cis (- (2 * pi * real k * real m / real n)))"
proof -
  let ?p = "take n x @ replicate (n - length x) 0"
  let ?f = "\<lambda>m. complex_of_real (?p ! m) * cis (- (2 * pi * real k * real m / real n))"
  let ?g = "\<lambda>m. complex_of_real (x ! m) * cis (- (2 * pi * real k * real m / real n))"
  have "fft x n ! k = (\<Sum>m\<leftarrow>[0..<n]. ?f m)"
    using assms(2) by (simp add: fft_def Let_def)
  also have "\<dots> = (\<Sum>m\<in>{0..<n}. ?f m)"
    by (simp add: interv_sum_list_conv_sum_set_nat)
  also have "{0..<n} = {0..<length x} \<union> {length x..<n}"
    using assms(1) by auto
  also have "(\<Sum>m\<in>{0..<length x} \<union> {length x..<n}. ?f m)
      = (\<Sum>m\<in>{0..<length x}. ?f m) + (\<Sum>m\<in>{length x..<n}. ?f m)"
    by (rule sum.union_disjoint) auto
  also have "(\<Sum>m\<in>{length x..<n}. ?f m) = 0"
    using assms(1) by (intro sum.neutral) (auto simp: nth_append)
  also have "(\<Sum>m\<in>{0..<length x}. ?f m) = (\<Sum>m\<in>{0..<length x}. ?g m)"
    using assms(1) by (intro sum.cong) (auto simp: nth_append)
  finally show ?thesis by (simp add: atLeast0LessThan)
qed

lemma round_ndigits_0 [simp]: "round_ndigits 0 k = 0"
  by (simp add: round_ndigits_def py_round_def Let_def)

lemma fold_add_harmonic:
  "fold (add_harmonic sp fb half) [2..<6] 0
    = (\<Sum>h\<in>{2, 3, 4, 5}. if int h * fb \<le> int half then (sp ! nat (int h * fb))\<^sup>2 else 0)"
  by (simp add: add_harmonic_def Let_def upt_conv_Cons)

lemma array_get_in_range:
  "0 \<le> i \<Longrightarrow> nat i < length a \<Longrightarrow> array_get a i = Inr (a ! nat i)"
  by (auto simp: array_get_def Let_def)

lemma array_get_beyond:
  "int (length a) \<le> i \<Longrightarrow> array_get a i = Inl IndexError"
  by (auto simp: array_get_def Let_def)

text \<open>The spectrum kept by compute_thd, entry by entry.\<close>

lemma spectrum_nth:
  assumes "length x \<le> N" and "j \<le> N div 2" and "2 \<le> N"
  shows "take (N div 2 + 1) (map cmod (fft x N)) ! j = spec_magnitude x N j"
proof -
  have jN: "j < N" using assms(2,3) by arith
  have "take (N div 2 + 1) (map cmod (fft x N)) ! j = cmod (fft x N ! j)"
    using assms(2) jN by simp
  then show ?thesis
    using fft_nth [OF assms(1) jN] by (simp add: spec_magnitude_def)
qed

lemma length_spectrum:
  "2 \<le> N \<Longrightarrow> length (take (N div 2 + 1) (map cmod (fft x N))) = N div 2 + 1"
  by simp

text \<open>
  \<open>compute_thd\<close> on a signal of two or more samples: the rounded value of the
  specification's measure at the transform length \<open>2 ^ ceil_log2 n\<close>.
\<close>

lemma compute_thd_at_n_fft:
  assumes len: "2 \<le> length signal" and fs: "fs \<noteq> 0"
  shows "compute_thd signal fs fundamental
    = Inr (round_ndigits
        (spec_thd_at (2 ^ ceil_log2 (length signal)) signal fs fundamental) 4)"
proof -
  define N :: nat where "N = 2 ^ ceil_log2 (length signal)"
  define half where "half = N div 2"
  define sp where "sp = take (half + 1) (map cmod (fft signal N))"
  define fb where "fb = max 1 (min (py_round (fundamental * real N / fs)) (int half))"
  have nfft: "max (length signal) (2 ^ ceil_log2 (length signal)) = N"
    unfolding N_def using ceil_log2_upper [of "length signal"] by simp
  have lN: "length signal \<le> N"
    unfolding N_def by (rule ceil_log2_upper)
  with len have N2: "2 \<le> N" by simp
  then have half1: "1 \<le> half" unfolding half_def by arith
  have fb_lo: "1 \<le> fb" unfolding fb_def by simp
  have fb_hi: "fb \<le> int half" unfolding fb_def using half1 by simp
  have sp_len: "length sp = half + 1"
    unfolding sp_def half_def using length_spectrum [OF N2] .
  have sp_nth: "sp ! j = spec_magnitude signal N j" if "j \<le> half" for j
    unfolding sp_def half_def using spectrum_nth [OF lN _ N2] that half_def by simp
  have get: "array_get sp fb = Inr (spec_magnitude signal N (nat fb))"
    using fb_lo fb_hi sp_len sp_nth [of "nat fb"] by (simp add: array_get_in_range)
  have harm: "fold (add_harmonic sp fb half) [2..<6] 0
      = (\<Sum>h\<in>{2, 3, 4, 5}. if h * nat fb \<le> half
            then (spec_magnitude signal N (h * nat fb))\<^sup>2 else 0)"
    unfolding fold_add_harmonic
  proof (rule sum.cong [OF refl])
    fix h :: nat
    have eq: "nat (int h * fb) = h * nat fb"
      using fb_lo by (simp add: nat_mult_distrib)
    have "int (h * nat fb) = int h * fb"
      using fb_lo by simp
    then have le: "int h * fb \<le> int half \<longleftrightarrow> h * nat fb \<le> half"
      by (metis of_nat_le_iff)
    show "(if int h * fb \<le> int half then (sp ! nat (int h * fb))\<^sup>2 else 0)
        = (if h * nat fb \<le> half then (spec_magnitude signal N (h * nat fb))\<^sup>2 else 0)"
      using le eq sp_nth [of "h * nat fb"] by simp
  qed
  have ne: "length signal \<noteq> 0" using len by auto
  have code: "compute_thd signal fs fundamental
      = (if spec_magnitude signal N (nat fb) \<le> 0 then Inr 0
         else Inr (round_ndigits (100 * sqrt (fold (add_harmonic sp fb half) [2..<6] 0)
                     / spec_magnitude signal N (nat fb)) 4))"
    unfolding compute_thd_def Let_def nfft
    unfolding half_def [symmetric]
    unfolding sp_def [symmetric] fb_def [symmetric]
    unfolding get
    using ne fs by (simp del: upt_rec_numeral)
  have spec: "spec_thd_at N signal fs fundamental
      = (if 0 < spec_magnitude signal N (nat fb)
         then 100 * sqrt (fold (add_harmonic sp fb half) [2..<6] 0)
                / spec_magnitude signal N (nat fb)
         else 0)"
    unfolding harm
    by (simp add: spec_thd_at_def Let_def half_def [symmetric] fb_def [symmetric])
  show ?thesis
    unfolding N_def [symmetric] code spec by (simp add: not_less del: upt_rec_numeral)
qed

subsection \<open>An impulse of eight samples\<close>

lemma spec_magnitude_impulse: "spec_magnitude impulse N k = 1"
  by (simp add: spec_magnitude_def impulse_def lessThan_nat_numeral lessThan_Suc)

lemma spec_thd_at_impulse: "spec_thd_at 8 impulse 8 1 = 100 * sqrt 3"
  by (simp add: spec_thd_at_def Let_def spec_magnitude_impulse)

lemma ceil_log2_8: "ceil_log2 8 = 3"
  by (simp add: ceil_log2.simps)

lemma spec_thd_impulse: "spec_thd impulse 8 1 = 100 * sqrt 3"
proof -
  have len: "length impulse = 8" by (simp add: impulse_def)
  have "spec_next_pow2 8 = 2 ^ ceil_log2 8"
    by (rule spec_next_pow2_eq) simp
  then show ?thesis
    unfolding spec_thd_def len by (simp add: ceil_log2_8 spec_thd_at_impulse)
qed

lemma sqrt3_below: "100 * sqrt 3 < 1732051 / 10000"
proof -
  have "sqrt 3 < 1.732051"
    by (rule real_less_lsqrt) (simp_all add: power2_eq_square)
  then show ?thesis by simp
qed

lemma compute_thd_impulse: "compute_thd impulse 8 1 = Inr (1732051 / 10000)"
proof -
  have "compute_thd impulse 8 1
      = Inr (round_ndigits (spec_thd_at (2 ^ ceil_log2 (length impulse)) impulse 8 1) 4)"
    by (rule compute_thd_at_n_fft) (simp_all add: impulse_def)
  also have "length impulse = 8" by (simp add: impulse_def)
  finally show ?thesis
    by (simp add: ceil_log2_8 spec_thd_at_impulse round_100_sqrt3)
qed

subsection \<open>Root mean square\<close>

lemma base_sine_const: "base_sine = replicate 50 (sqrt 2 / 2)"
proof (rule nth_equalityI)
  show "length base_sine = length (replicate 50 (sqrt 2 / 2 :: real))"
    by (simp add: length_base_sine)
next
  fix k assume "k < length base_sine"
  then have k: "k < 50" by (simp add: length_base_sine)
  have "sin (2 * (pi * real k) + pi / 4) = sqrt 2 / 2"
  proof -
    have s: "sin (2 * (pi * real k)) = 0"
      using sin_2npi [of k] by (simp add: ac_simps)
    have c: "cos (2 * (pi * real k)) = 1"
      using cos_2npi [of k] by (simp add: ac_simps)
    show ?thesis unfolding sin_add s c by (simp add: sin_45)
  qed
  then show "base_sine ! k = replicate 50 (sqrt 2 / 2) ! k"
    using k by (simp add: base_sine_def sample_times_def SAMPLES_PER_READING_def
        SAMPLING_RATE_def NOMINAL_FREQUENCY_def)
qed

lemma compute_rms_nil: "compute_rms [] = 0"
  by (simp add: compute_rms_def)

lemma compute_rms_over_indices:
  "signal \<noteq> [] \<Longrightarrow> compute_rms signal
     = round_ndigits (sqrt ((\<Sum>i<length signal. (signal ! i)\<^sup>2) / real (length signal))) 4"
proof -
  assume "signal \<noteq> []"
  have "sum_list (map (\<lambda>x. x\<^sup>2) signal) = (\<Sum>i<length signal. (signal ! i)\<^sup>2)"
    by (simp add: sum_list_sum_nth atLeast0LessThan)
  with \<open>signal \<noteq> []\<close> show ?thesis
    by (simp add: compute_rms_def mean_def Let_def)
qed

lemma compute_rms_scaled_sine:
  assumes "0 \<le> A"
  shows "compute_rms (map (\<lambda>s. A * s) base_sine) = round_ndigits (A / sqrt 2) 4"
proof -
  have sq: "(A * sqrt 2 / 2)\<^sup>2 = A\<^sup>2 / 2"
    by (simp add: power_divide power_mult_distrib)
  have m: "mean (map (\<lambda>x. x\<^sup>2) (map (\<lambda>s. A * s) base_sine)) = A\<^sup>2 / 2"
    by (simp add: base_sine_const mean_def sum_list_replicate sq)
  have r: "sqrt (A\<^sup>2 / 2) = A / sqrt 2"
    using assms by (simp add: real_sqrt_divide)
  have "compute_rms (map (\<lambda>s. A * s) base_sine)
      = round_ndigits (sqrt (mean (map (\<lambda>x. x\<^sup>2) (map (\<lambda>s. A * s) base_sine)))) 4"
    unfolding compute_rms_def Let_def by (simp add: length_base_sine)
  then show ?thesis unfolding m r .
qed

lemma sqrt2_bounds: "1.41421 < sqrt 2" "sqrt 2 < 1.41422"
proof -
  show "1.41421 < sqrt 2" by (rule real_less_rsqrt) (simp add: power2_eq_square)
  show "sqrt 2 < 1.41422" by (rule real_less_lsqrt) (simp_all add: power2_eq_square)
qed

lemma round_inv_sqrt2: "round_ndigits (1 / sqrt 2) 4 = 0.7071"
proof -
  have "sqrt 2 * sqrt 2 = 2" by simp
  then have e: "1 / sqrt 2 = sqrt 2 / 2"
    by (simp add: field_simps)
  have "py_round (1 / sqrt 2 * 10 ^ 4) = 7071"
    unfolding e using sqrt2_bounds by (intro py_round_between) simp_all
  then show ?thesis by (simp add: round_ndigits_def)
qed

subsection \<open>The pipeline\<close>

lemma bandpass_filter_pipeline:
  "bandpass_filter butter filtfilt v 45 55 50 3 = Inr v"
  by (simp add: bandpass_filter_def Let_def)

lemma np_max_Max:
  assumes "xs \<noteq> []"
  shows "np_max xs = Inr (Max (set xs))"
proof (cases xs)
  case Nil
  with assms show ?thesis by simp
next
  case (Cons a list)
  have "fold max list a = Max (set (a # list))"
    by (rule Max.set_eq_fold [symmetric])
  with Cons show ?thesis by (simp add: np_max_def)
qed

lemma np_max_nil: "np_max [] = Inl ValueError"
  by (simp add: np_max_def)

lemma compute_thd_nil: "compute_thd [] fs fundamental = Inr 0"
  by (simp add: compute_thd_def)

lemma compute_thd_single:
  assumes "fs \<noteq> 0"
  shows "compute_thd [x] fs fundamental = Inl IndexError"
proof -
  have c: "ceil_log2 (Suc 0) = 0" by (simp add: ceil_log2.simps)
  have "array_get (take (Suc 0) (map cmod (fft [x] (Suc 0))))
          (max 1 (min (py_round (fundamental / fs)) 0)) = Inl IndexError"
    by (intro array_get_beyond) simp
  then show ?thesis
    using assms by (simp add: compute_thd_def Let_def c)
qed

text \<open>
  With the sampling rate equal to the fundamental, the fundamental bin is the last bin
  of the spectrum and every harmonic bin lies beyond it.
\<close>

lemma spec_thd_at_pipeline:
  assumes N2: "2 \<le> N"
  shows "spec_thd_at N v 50 50 = 0"
proof -
  define half where "half = N div 2"
  from N2 have half1: "1 \<le> half" and halfN: "half \<le> N" unfolding half_def by simp_all
  have b: "nat (max 1 (min (py_round (50 * real N / 50)) (int half))) = half"
    using half1 halfN py_round_of_int [of "int N"] by simp
  have harm: "(\<Sum>h\<in>{2, 3, 4, 5}.
      if h * half \<le> half then (spec_magnitude v N (h * half))\<^sup>2 else 0) = 0"
    using half1 by simp
  show ?thesis
    unfolding spec_thd_at_def Let_def half_def [symmetric] b harm by simp
qed

lemma compute_thd_pipeline:
  assumes "2 \<le> length v"
  shows "compute_thd v 50 50 = Inr 0"
proof -
  have "length v \<le> 2 ^ ceil_log2 (length v)" by (rule ceil_log2_upper)
  with assms have "(2::nat) \<le> 2 ^ ceil_log2 (length v)" by simp
  then have "spec_thd_at (2 ^ ceil_log2 (length v)) v 50 50 = 0"
    by (rule spec_thd_at_pipeline)
  with compute_thd_at_n_fft [OF assms, of 50 50] show ?thesis by simp
qed

lemma extract_features_returns:
  assumes "2 \<le> length (voltage r)"
  shows "extract_features butter filtfilt r =
    Inr \<lparr>rms_voltage = compute_rms (voltage r), thd_percent = 0,
         frequency_deviation_hz = compute_frequency_deviation (frequency r),
         peak_voltage = round_ndigits (Max (set (map abs (voltage r)))) 4,
         anomaly_type = reading.anomaly_type r, severity = reading.severity r\<rparr>"
proof -
  have ne: "map abs (voltage r) \<noteq> []" using assms by auto
  show ?thesis
    unfolding extract_features_def Let_def
    by (simp add: bandpass_filter_pipeline compute_thd_pipeline [OF assms] np_max_Max [OF ne])
qed

lemma extract_features_empty:
  assumes "voltage r = []"
  shows "extract_features butter filtfilt r = Inl ValueError"
  unfolding extract_features_def Let_def
  by (simp add: bandpass_filter_pipeline assms compute_thd_nil np_max_nil)

lemma extract_features_single:
  assumes "voltage r = [x]"
  shows "extract_features butter filtfilt r = Inl IndexError"
  unfolding extract_features_def Let_def
  by (simp add: bandpass_filter_pipeline assms compute_thd_single)

lemma mean_nonneg: "(\<And>x. x \<in> set xs \<Longrightarrow> 0 \<le> x) \<Longrightarrow> 0 \<le> mean xs"
  unfolding mean_def by (intro divide_nonneg_nonneg sum_list_nonneg) auto

lemma compute_rms_nonneg: "0 \<le> compute_rms xs"
proof -
  have "0 \<le> mean (map (\<lambda>x. x\<^sup>2) xs)" by (rule mean_nonneg) auto
  then have "0 \<le> round_ndigits (sqrt (mean (map (\<lambda>x. x\<^sup>2) xs))) 4"
    by (intro round_ndigits_nonneg) simp
  then show ?thesis by (simp add: compute_rms_def Let_def)
qed

lemma compute_rms_decimals: "compute_rms xs * 10 ^ 4 \<in> \<int>"
  using round_ndigits_decimals [of _ 4] by (simp add: compute_rms_def Let_def)

lemma compute_frequency_deviation_nonneg: "0 \<le> compute_frequency_deviation xs"
proof -
  have "0 \<le> mean (map (\<lambda>f. \<bar>f - 50.0\<bar>) xs)" by (rule mean_nonneg) auto
  then have "0 \<le> round_ndigits (mean (map (\<lambda>f. \<bar>f - 50.0\<bar>) xs)) 4"
    by (rule round_ndigits_nonneg)
  then show ?thesis by (simp add: compute_frequency_deviation_def Let_def)
qed

lemma compute_frequency_deviation_decimals: "compute_frequency_deviation xs * 10 ^ 4 \<in> \<int>"
  using round_ndigits_decimals [of _ 4]
  by (simp add: compute_frequency_deviation_def Let_def)

lemma Max_abs_nonneg:
  fixes xs :: "real list"
  assumes "xs \<noteq> []"
  shows "0 \<le> Max (set (map abs xs))"
proof -
  have "\<bar>hd xs\<bar> \<in> set (map abs xs)" using assms by (cases xs) simp_all
  then have "\<bar>hd xs\<bar> \<le> Max (set (map abs xs))" by (intro Max_ge) simp_all
  with abs_ge_zero [of "hd xs"] show ?thesis by linarith
qed




section \<open>The claims on the feature extractor\<close>

text \<open>
  Claim C2 (as amended). For every signal of two or more samples and every sampling
  rate other than zero, \<open>compute_thd\<close> returns the specification's distortion
  measure rounded to 4 decimal digits.
\<close>

theorem compute_thd_rounded_spec:
  assumes "2 \<le> length signal" and "fs \<noteq> 0"
  shows "compute_thd signal fs fundamental
    = Inr (round_ndigits (spec_thd signal fs fundamental) 4)"
proof -
  have "1 \<le> length signal" using assms(1) by simp
  then have "spec_next_pow2 (length signal) = 2 ^ ceil_log2 (length signal)"
    by (rule spec_next_pow2_eq)
  then have "spec_thd signal fs fundamental
      = spec_thd_at (2 ^ ceil_log2 (length signal)) signal fs fundamental"
    by (simp add: spec_thd_def)
  with compute_thd_at_n_fft [OF assms, of fundamental] show ?thesis
    by simp
qed

theorem compute_thd_rounded_spec_witness:
  "2 \<le> length impulse \<and> (8::real) \<noteq> 0
    \<and> compute_thd impulse 8 1 = Inr (round_ndigits (spec_thd impulse 8 1) 4)
    \<and> round_ndigits (spec_thd impulse 8 1) 4 = 1732051 / 10000"
proof -
  have h: "2 \<le> length impulse" "(8::real) \<noteq> 0"
    by (simp_all add: impulse_def)
  from compute_thd_rounded_spec [OF h, of 1] h show ?thesis
    by (simp add: spec_thd_impulse round_100_sqrt3)
qed

theorem compute_thd_unrounded_counterexample:
  "compute_thd impulse 8 1 = Inr (1732051 / 10000)
    \<and> spec_thd impulse 8 1 = 100 * sqrt 3
    \<and> compute_thd impulse 8 1 \<noteq> Inr (spec_thd impulse 8 1)"
  using sqrt3_below by (simp add: compute_thd_impulse spec_thd_impulse)

text \<open>
  Claim C3. If a normalised cutoff lies outside the open interval (0, 1), or the
  filter design or its application raises \<^verbatim>\<open>ValueError\<close> or
  \<^verbatim>\<open>LinAlgError\<close>, then \<open>bandpass_filter\<close> returns its input unchanged and
  raises nothing. The sampling rate is not zero, so that the normalised cutoffs exist.
\<close>

theorem bandpass_filter_fallback:
  assumes "fs \<noteq> 0"
    and "lowcut / (fs / 2) \<le> 0 \<or> 1 \<le> lowcut / (fs / 2)
       \<or> highcut / (fs / 2) \<le> 0 \<or> 1 \<le> highcut / (fs / 2)
       \<or> butter ord (lowcut / (fs / 2)) (highcut / (fs / 2)) = Inl ValueError
       \<or> butter ord (lowcut / (fs / 2)) (highcut / (fs / 2)) = Inl LinAlgError
       \<or> (\<exists>b a. butter ord (lowcut / (fs / 2)) (highcut / (fs / 2)) = Inr (b, a)
            \<and> (filtfilt b a signal = Inl ValueError \<or> filtfilt b a signal = Inl LinAlgError))"
  shows "bandpass_filter butter filtfilt signal lowcut highcut fs ord = Inr signal"
proof -
  define low where "low = lowcut / (fs / 2)"
  define high where "high = highcut / (fs / 2)"
  have nyq: "0.5 * fs \<noteq> 0" using assms(1) by simp
  have lh: "lowcut / (0.5 * fs) = low" "highcut / (0.5 * fs) = high"
    by (simp_all add: low_def high_def)
  have unfold: "bandpass_filter butter filtfilt signal lowcut highcut fs ord
      = (if 1 \<le> low \<or> 1 \<le> high \<or> low \<le> 0 \<or> high \<le> 0 then Inr signal
         else (case butter ord low high of
                 Inl e \<Rightarrow> if e = ValueError \<or> e = LinAlgError then Inr signal else Inl e
               | Inr (b, a) \<Rightarrow>
                   (case filtfilt b a signal of
                      Inl e \<Rightarrow> if e = ValueError \<or> e = LinAlgError then Inr signal else Inl e
                    | Inr filtered \<Rightarrow> Inr filtered)))"
    unfolding bandpass_filter_def Let_def lh using nyq by simp
  from assms(2) consider
      (out_of_range) "low \<le> 0 \<or> 1 \<le> low \<or> high \<le> 0 \<or> 1 \<le> high"
    | (design_fails) "butter ord low high = Inl ValueError \<or> butter ord low high = Inl LinAlgError"
    | (filter_fails) b a where "butter ord low high = Inr (b, a)"
        "filtfilt b a signal = Inl ValueError \<or> filtfilt b a signal = Inl LinAlgError"
    unfolding low_def high_def by blast
  then show ?thesis
  proof cases
    case out_of_range
    then show ?thesis unfolding unfold by auto
  next
    case design_fails
    then show ?thesis unfolding unfold by auto
  next
    case filter_fails
    then show ?thesis unfolding unfold by auto
  qed
qed

theorem bandpass_filter_fallback_witness:
  "(50::real) \<noteq> 0 \<and> (1::real) \<le> 55 / (50 / 2)
    \<and> bandpass_filter unused_butter unused_filtfilt [1, 2, 3] 45 55 50 3 = Inr [1, 2, 3]
    \<and> (200::real) \<noteq> 0
    \<and> unit_butter 3 (45 / (200 / 2)) (55 / (200 / 2)) = Inr ([1], [1])
    \<and> short_filtfilt [1] [1] [1, 2, 3] = Inl ValueError
    \<and> bandpass_filter unit_butter short_filtfilt [1, 2, 3] 45 55 200 3 = Inr [1, 2, 3]"
proof -
  have a: "bandpass_filter unused_butter unused_filtfilt [1, 2, 3] 45 55 50 3 = Inr [1, 2, 3]"
    by (rule bandpass_filter_fallback) simp_all
  have b: "bandpass_filter unit_butter short_filtfilt [1, 2, 3] 45 55 200 3 = Inr [1, 2, 3]"
    by (rule bandpass_filter_fallback) (simp_all add: unit_butter_def short_filtfilt_def)
  from a b show ?thesis
    by (simp add: unit_butter_def short_filtfilt_def)
qed

text \<open>
  Claim C6. For every reading with non-empty voltage and frequency arrays,
  \<open>extract_features\<close> returns a feature dictionary whose four numeric fields are
  non-negative and rounded to 4 decimal digits and whose anomaly type and severity are
  those of the reading. The code does not do this for the reading whose voltage has one
  sample: \<open>compute_thd\<close> takes a transform of length 1, so \<open>half = 0\<close>, the clamp
  \<^verbatim>\<open>max(1, min(fund_bin, half))\<close> yields bin 1, and \<^verbatim>\<open>spectrum[1]\<close> lies beyond the
  one-bin spectrum. \<open>extract_features\<close> raises \<^verbatim>\<open>IndexError\<close> and returns no
  dictionary, whatever the filter routines do.
\<close>

theorem extract_features_one_sample_raises:
  "voltage one_sample_reading \<noteq> [] \<and> frequency one_sample_reading \<noteq> []
    \<and> compute_rms (voltage one_sample_reading) = 1
    \<and> compute_frequency_deviation (frequency one_sample_reading) = 0
    \<and> compute_thd (voltage one_sample_reading) 50 50 = Inl IndexError
    \<and> (\<forall>butter filtfilt.
          extract_features butter filtfilt one_sample_reading = Inl IndexError)
    \<and> (\<nexists>f. extract_features unused_butter unused_filtfilt one_sample_reading = Inr f)"
proof -
  have v: "voltage one_sample_reading = [1]" and f: "frequency one_sample_reading = [50]"
    by (simp_all add: one_sample_reading_def)
  have ex: "extract_features butter filtfilt one_sample_reading = Inl IndexError"
    for butter filtfilt
    using v by (rule extract_features_single)
  have thd: "compute_thd (voltage one_sample_reading) 50 50 = Inl IndexError"
    unfolding v by (rule compute_thd_single) simp
  have rms: "compute_rms (voltage one_sample_reading) = 1"
    unfolding v by (simp add: compute_rms_def mean_def round_ndigits_def)
  have dev: "compute_frequency_deviation (frequency one_sample_reading) = 0"
    unfolding f by (simp add: compute_frequency_deviation_def mean_def)
  show ?thesis
    using v f ex thd rms dev by simp
qed

text \<open>
  On every other reading of the claim the code does what the claim says. Whenever a
  dictionary is returned for a reading with non-empty arrays, its four numeric fields
  are non-negative and have at most 4 decimal digits, and it carries the reading's
  anomaly type and severity unchanged; a dictionary is returned whenever the voltage
  has two or more samples.
\<close>

lemma extract_features_invariants:
  assumes "voltage r \<noteq> []" and "frequency r \<noteq> []"
  shows "(\<forall>f. extract_features butter filtfilt r = Inr f \<longrightarrow>
            0 \<le> rms_voltage f \<and> 0 \<le> thd_percent f
          \<and> 0 \<le> frequency_deviation_hz f \<and> 0 \<le> peak_voltage f
          \<and> rms_voltage f * 10 ^ 4 \<in> \<int> \<and> thd_percent f * 10 ^ 4 \<in> \<int>
          \<and> frequency_deviation_hz f * 10 ^ 4 \<in> \<int> \<and> peak_voltage f * 10 ^ 4 \<in> \<int>
          \<and> features.anomaly_type f = reading.anomaly_type r
          \<and> features.severity f = reading.severity r)
       \<and> (2 \<le> length (voltage r) \<longrightarrow> (\<exists>f. extract_features butter filtfilt r = Inr f))"
proof (cases "2 \<le> length (voltage r)")
  case True
  note ret = extract_features_returns [OF True, of butter filtfilt]
  have peak0: "0 \<le> round_ndigits (Max (set (map abs (voltage r)))) 4"
    using assms(1) by (intro round_ndigits_nonneg Max_abs_nonneg)
  have peakd: "round_ndigits (Max (set (map abs (voltage r)))) 4 * 10 ^ 4 \<in> \<int>"
    by (rule round_ndigits_decimals)
  show ?thesis
    unfolding ret
    using compute_rms_nonneg [of "voltage r"] compute_rms_decimals [of "voltage r"]
      compute_frequency_deviation_nonneg [of "frequency r"]
      compute_frequency_deviation_decimals [of "frequency r"] peak0 peakd True
    by auto
next
  case False
  with assms(1) obtain x where "voltage r = [x]"
    by (cases "voltage r"; cases "tl (voltage r)") auto
  then have "extract_features butter filtfilt r = Inl IndexError"
    by (rule extract_features_single)
  with False show ?thesis by simp
qed

lemma extract_features_invariants_sample:
  "voltage sample_reading \<noteq> [] \<and> frequency sample_reading \<noteq> []
    \<and> 2 \<le> length (voltage sample_reading)
    \<and> (\<exists>f. extract_features unused_butter unused_filtfilt sample_reading = Inr f
          \<and> 0 \<le> rms_voltage f \<and> 0 \<le> thd_percent f
          \<and> 0 \<le> frequency_deviation_hz f \<and> 0 \<le> peak_voltage f
          \<and> rms_voltage f * 10 ^ 4 \<in> \<int> \<and> thd_percent f * 10 ^ 4 \<in> \<int>
          \<and> frequency_deviation_hz f * 10 ^ 4 \<in> \<int> \<and> peak_voltage f * 10 ^ 4 \<in> \<int>
          \<and> features.anomaly_type f = reading.anomaly_type sample_reading
          \<and> features.severity f = reading.severity sample_reading)"
proof -
  have h: "voltage sample_reading \<noteq> []" "frequency sample_reading \<noteq> []"
    and l: "2 \<le> length (voltage sample_reading)"
    by (simp_all add: sample_reading_def)
  from extract_features_invariants [OF h, of unused_butter unused_filtfilt] h l
  show ?thesis by blast
qed

text \<open>
  Claim C7. \<open>compute_rms\<close> returns 0 for an empty signal and, for a non-empty one,
  the square root of the mean of the squared samples rounded to 4 decimal digits. For
  the nominal 50-sample sine of amplitude \<open>A\<close> the result is \<open>A / sqrt 2\<close> rounded
  to 4 decimal digits, hence within half a unit of the fourth digit of \<open>A / sqrt 2\<close>;
  for the voltage of a normal reading (\<open>A = 1\<close>) it is 0.7071.
\<close>

theorem compute_rms_root_mean_square:
  "compute_rms [] = 0
    \<and> (signal \<noteq> [] \<longrightarrow> compute_rms signal
          = round_ndigits
              (sqrt ((\<Sum>i<length signal. (signal ! i)\<^sup>2) / real (length signal))) 4)
    \<and> (0 \<le> A \<longrightarrow>
          compute_rms (map (\<lambda>s. A * s) base_sine) = round_ndigits (A / sqrt 2) 4
        \<and> \<bar>compute_rms (map (\<lambda>s. A * s) base_sine) - A / sqrt 2\<bar> \<le> 5 / 10 ^ 5)
    \<and> compute_rms (voltage (fst (generate_normal_signal g))) = 0.7071"
proof -
  have tol: "\<bar>round_ndigits (A / sqrt 2) 4 - A / sqrt 2\<bar> \<le> 5 / 10 ^ 5"
    using round_ndigits_error [of "A / sqrt 2" 4] by simp
  have "voltage (fst (generate_normal_signal g)) = map (\<lambda>s. 1 * s) base_sine"
    by (simp add: generate_normal_signal_def Let_def NOMINAL_VOLTAGE_def split: prod.splits)
  then have "compute_rms (voltage (fst (generate_normal_signal g)))
      = round_ndigits (1 / sqrt 2) 4"
    using compute_rms_scaled_sine [of 1] by simp
  then have normal: "compute_rms (voltage (fst (generate_normal_signal g))) = 0.7071"
    by (simp only: round_inv_sqrt2)
  show ?thesis
    using compute_rms_nil compute_rms_over_indices [of signal]
      compute_rms_scaled_sine [of A] tol normal
    by auto
qed

theorem compute_rms_root_mean_square_witness:
  "[3, 4] \<noteq> ([] :: real list)
    \<and> compute_rms [3, 4]
        = round_ndigits (sqrt ((\<Sum>i<length [3, 4 :: real]. ([3, 4] ! i)\<^sup>2) / real (length [3, 4 :: real]))) 4
    \<and> (0::real) \<le> 2
    \<and> compute_rms (map (\<lambda>s. 2 * s) base_sine) = round_ndigits (2 / sqrt 2) 4
    \<and> \<bar>compute_rms (map (\<lambda>s. 2 * s) base_sine) - 2 / sqrt 2\<bar> \<le> 5 / 10 ^ 5"
proof -
  have ne: "[3, 4] \<noteq> ([] :: real list)" by simp
  have nn: "(0::real) \<le> 2" by simp
  from compute_rms_root_mean_square [of "[3, 4]" 2 rng0] ne nn show ?thesis
    by blast
qed

text \<open>
  Claim C8. On a reading whose voltage is 50 zeros, \<open>extract_features\<close> raises
  nothing and returns a dictionary with RMS voltage, distortion and peak voltage all 0.
\<close>

theorem extract_features_zero_voltage:
  assumes "voltage r = replicate 50 0"
  shows "\<exists>f. extract_features butter filtfilt r = Inr f
    \<and> rms_voltage f = 0 \<and> thd_percent f = 0 \<and> peak_voltage f = 0"
proof -
  have len: "2 \<le> length (voltage r)" using assms by simp
  have rms: "compute_rms (voltage r) = 0"
    by (simp add: assms compute_rms_def Let_def mean_def sum_list_replicate)
  have "set (map abs (voltage r)) = {0}" by (simp add: assms)
  then have peak: "round_ndigits (Max (set (map abs (voltage r)))) 4 = 0"
    by (simp only: Max_singleton round_ndigits_0)
  from extract_features_returns [OF len, of butter filtfilt] show ?thesis
    unfolding rms peak by simp
qed

theorem extract_features_zero_voltage_witness:
  "voltage zero_reading = replicate 50 0
    \<and> (\<exists>f. extract_features unused_butter unused_filtfilt zero_reading = Inr f
          \<and> rms_voltage f = 0 \<and> thd_percent f = 0 \<and> peak_voltage f = 0)"
proof -
  have h: "voltage zero_reading = replicate 50 0"
    by (simp add: zero_reading_def)
  from extract_features_zero_voltage [OF h, of unused_butter unused_filtfilt] h
  show ?thesis by blast
qed



text \<open>
  Claim C10. On a reading with an empty voltage array \<open>extract_features\<close> returns no
  dictionary: \<open>compute_rms\<close>, \<open>compute_thd\<close> and \<open>compute_frequency_deviation\<close> each
  return 0 on empty input, but the maximum of the empty array raises
  \<^verbatim>\<open>ValueError\<close>.
\<close>

theorem extract_features_empty_voltage:
  assumes "voltage r = []"
  shows "extract_features butter filtfilt r = Inl ValueError
    \<and> compute_rms (voltage r) = 0
    \<and> compute_thd (voltage r) fs fundamental = Inr 0
    \<and> compute_frequency_deviation [] = 0
    \<and> np_max (map abs (voltage r)) = Inl ValueError"
proof -
  have "compute_frequency_deviation [] = 0"
    by (simp add: compute_frequency_deviation_def)
  with extract_features_empty [OF assms, of butter filtfilt] show ?thesis
    by (simp add: assms compute_rms_nil compute_thd_nil np_max_nil)
qed

theorem extract_features_empty_voltage_witness:
  "voltage empty_reading = []
    \<and> extract_features unused_butter unused_filtfilt empty_reading = Inl ValueError
    \<and> compute_rms (voltage empty_reading) = 0
    \<and> compute_thd (voltage empty_reading) 50 50 = Inr 0"
proof -
  have h: "voltage empty_reading = []" by (simp add: empty_reading_def)
  from extract_features_empty_voltage [OF h, of unused_butter unused_filtfilt 50 50] h
  show ?thesis by blast
qed

end
